theory Spec2Isabelle
  imports Complex_Main "HOL-Library.Multiset"
begin

section \<open>The spatial grid of SMASH (grid.h, grid.cc) and the particle eligibility test\<close>

text \<open>
  The development embeds the constructor \<open>Grid<O>::Grid\<close> and the two specialisations of
  \<open>Grid<O>::iterate_cells\<close> of \<^verbatim>\<open>src/grid.cc\<close>, together with
  \<open>ParticleData::xsec_scaling_factor\<close> of \<^verbatim>\<open>src/particledata.cc\<close>.

  Conventions of the embedding:
  \<^item> a \<open>double\<close> is a \<open>real\<close>: arithmetic is exact, there is no rounding, no infinity and
    no NaN. The one primitive of the source whose meaning is the rounding grid itself,
    \<open>std::nextafter(x, 0.)\<close>, is a parameter \<open>nextafter_zero\<close> of the constructor;
  \<^item> \<open>SizeType\<close> (a 32 bit \<open>int\<close>) is an unbounded \<open>int\<close>; wherever the source converts a
    \<open>double\<close> to \<open>int\<close> or multiplies cell counts, the model tests the range and returns
    \<open>Undefined_Behaviour\<close> outside of it;
  \<^item> the template parameter \<open>GridOptions O\<close> and the build flag \<open>NDEBUG\<close> are ordinary
    arguments;
  \<^item> an exception is a value \<open>Inl e\<close>; a constructor that does not return is \<open>None\<close>.
\<close>

subsection \<open>Particles\<close>

type_synonym vec3 = "real \<times> real \<times> real"

text \<open>The fields of \<open>ParticleData\<close> that the grid reads. \<open>position\<close> is the four-vector
  \<open>(t, x, y, z)\<close>; the source addresses its components as \<open>position()[0..3]\<close>.\<close>

record ParticleData =
  particle_id :: int
  position :: "real \<times> real \<times> real \<times> real"
  formation_time :: real
  begin_formation_time :: real
  initial_xsec_scaling_factor :: real
  formation_power :: real

type_synonym ParticleList = "ParticleData list"

definition x0 :: "real \<times> real \<times> real \<times> real \<Rightarrow> real" where
  "x0 v = fst v"

definition x1 :: "real \<times> real \<times> real \<times> real \<Rightarrow> real" where
  "x1 v = fst (snd v)"

definition x2 :: "real \<times> real \<times> real \<times> real \<Rightarrow> real" where
  "x2 v = fst (snd (snd v))"

definition x3 :: "real \<times> real \<times> real \<times> real \<Rightarrow> real" where
  "x3 v = snd (snd (snd v))"

text \<open>\<open>ParticleData::xsec_scaling_factor(delta_time)\<close>, particledata.cc lines 85-119.\<close>

definition xsec_scaling_factor :: "ParticleData \<Rightarrow> real \<Rightarrow> real" where
  "xsec_scaling_factor p delta_time =
     (let time_of_interest = x0 (position p) + delta_time in
      if formation_power p \<le> 0 then
        (if time_of_interest < formation_time p then initial_xsec_scaling_factor p else 1)
      else if formation_time p \<le> time_of_interest then 1
      else if begin_formation_time p \<ge> time_of_interest then initial_xsec_scaling_factor p
      else initial_xsec_scaling_factor p +
           (1 - initial_xsec_scaling_factor p) *
             ((time_of_interest - begin_formation_time p) /
              (formation_time p - begin_formation_time p)) powr formation_power p)"

text \<open>Modelled from the spec: \<open>ParticleData::translated\<close> (particledata.h is not among the
  sources). The spec: a particle can "produce a translated copy of itself without mutating
  the original"; the copy differs from the original in its spatial position only.\<close>

definition translated :: "vec3 \<Rightarrow> ParticleData \<Rightarrow> ParticleData" where
  "translated delta p =
     (case (position p, delta) of
        ((t, x, y, z), (dx, dy, dz)) \<Rightarrow> p\<lparr>position := (t, x + dx, y + dy, z + dz)\<rparr>)"

text \<open>Modelled from the spec: \<open>Particles::copy_to_vector\<close> (particles.h is not among the
  sources). The particle collection is "an iterable, sized collection"; the model is the
  list of its particles in iteration order, and the copy holds every one of them (the
  function takes no step duration, and the constructor uses it on the branch that
  includes every particle, grid.cc lines 221-224).\<close>

definition copy_to_vector :: "ParticleList \<Rightarrow> ParticleList" where
  "copy_to_vector particles = particles"

subsection \<open>Grid data\<close>

datatype GridOptions = Normal | PeriodicBoundaries

datatype CellSizeStrategy = Optimal | Largest

text \<open>\<open>CellNumberLimitation::None\<close> is \<open>None_Limitation\<close> here.\<close>

datatype CellNumberLimitation = None_Limitation | ParticleNumber

text \<open>The exceptions of the constructor: \<open>std::overflow_error\<close> (line 158), the
  \<open>std::runtime_error\<close> for a box that is too small (line 188), the \<open>std::runtime_error\<close> of
  the bounds check compiled without \<open>NDEBUG\<close> (line 279), and \<open>std::length_error\<close>, which
  \<open>cells_.resize\<close> throws for a negative product of cell counts (line 249).
  \<open>Undefined_Behaviour\<close> stands for the executions C++ leaves undefined: a conversion to
  \<open>int\<close> out of range, a signed overflow, an access outside of \<open>cells_\<close>.\<close>

datatype grid_error =
  Overflow_Error | Box_Too_Small | Out_Of_Bounds | Length_Error | Undefined_Behaviour

record Grid =
  grid_length :: vec3
  cell_volume :: real
  number_of_cells :: "int \<times> int \<times> int"
  cells :: "ParticleList list"

definition INT_MAX :: int where
  "INT_MAX = 2147483647"

definition INT_MIN :: int where
  "INT_MIN = - 2147483648"

definition int_range :: "int \<Rightarrow> bool" where
  "int_range v \<longleftrightarrow> INT_MIN \<le> v \<and> v \<le> INT_MAX"

text \<open>\<open>static_cast<int>(std::floor(v))\<close>, and the implicit conversion of \<open>std::floor(v)\<close> to
  \<open>SizeType\<close> in the arguments of \<open>make_index\<close>.\<close>

definition floor_to_int :: "real \<Rightarrow> grid_error + int" where
  "floor_to_int v = (if int_range \<lfloor>v\<rfloor> then Inr \<lfloor>v\<rfloor> else Inl Undefined_Behaviour)"

text \<open>The conversion of \<open>std::cbrt(particle_count)\<close> to \<open>int\<close> (line 144); the argument is a
  particle number, so truncation is \<open>floor\<close>.\<close>

definition cbrt_to_int :: "int \<Rightarrow> int" where
  "cbrt_to_int particle_count = \<lfloor>root 3 (real_of_int particle_count)\<rfloor>"

text \<open>Sequencing of steps that may throw or not return.\<close>

definition and_then ::
  "('e + 'a) option \<Rightarrow> ('a \<Rightarrow> ('e + 'b) option) \<Rightarrow> ('e + 'b) option" where
  "and_then r f = (case r of None \<Rightarrow> None | Some (Inl e) \<Rightarrow> Some (Inl e) | Some (Inr a) \<Rightarrow> f a)"

subsection \<open>The constructor: cell counts and index factors (lines 142-205)\<close>

text \<open>Lines 168-192: the checks on the count of one axis.\<close>

definition check_cells ::
  "GridOptions \<Rightarrow> CellNumberLimitation \<Rightarrow> int \<Rightarrow> int \<Rightarrow> grid_error + int" where
  "check_cells opt limit max_cells n =
     (if n = 0 \<and> opt \<noteq> PeriodicBoundaries then Inr 1
      else if n < 2 \<and> opt = PeriodicBoundaries then Inl Box_Too_Small
      else if limit = ParticleNumber \<and> n > max_cells then Inr max_cells
      else Inr n)"

text \<open>Lines 154-192: the count of one axis; \<open>index_factor\<close> is the entry of the array of
  line 150 that belongs to the axis.\<close>

definition axis_cells ::
  "GridOptions \<Rightarrow> CellSizeStrategy \<Rightarrow> CellNumberLimitation \<Rightarrow> int \<Rightarrow> real \<Rightarrow> real \<Rightarrow>
   grid_error + int" where
  "axis_cells opt strategy limit max_cells index_factor len =
     (if strategy = Largest then check_cells opt limit max_cells 2
      else if len > real_of_int INT_MAX / index_factor then Inl Overflow_Error
      else (case floor_to_int (len * index_factor) of
              Inl e \<Rightarrow> Inl e
            | Inr n \<Rightarrow> check_cells opt limit max_cells n))"

text \<open>Lines 200-202: the loop that rounds the index factor towards zero.\<close>

partial_function (option) nudge_index_factor ::
  "(real \<Rightarrow> real) \<Rightarrow> real \<Rightarrow> int \<Rightarrow> real \<Rightarrow> real option" where
  "nudge_index_factor nextafter_zero len n index_factor =
     (if index_factor * len \<ge> real_of_int n
      then nudge_index_factor nextafter_zero len n (nextafter_zero index_factor)
      else Some index_factor)"

text \<open>One iteration of the loop over the axes (lines 153-205): the count and the index
  factor of the axis.\<close>

definition axis_step ::
  "GridOptions \<Rightarrow> CellSizeStrategy \<Rightarrow> CellNumberLimitation \<Rightarrow> (real \<Rightarrow> real) \<Rightarrow> int \<Rightarrow>
   real \<Rightarrow> real \<Rightarrow> (grid_error + int \<times> real) option" where
  "axis_step opt strategy limit nextafter_zero max_cells max_interaction_length len =
     (let index_factor = 1 / max_interaction_length in
      case axis_cells opt strategy limit max_cells index_factor len of
        Inl e \<Rightarrow> Some (Inl e)
      | Inr n \<Rightarrow>
          if len \<ge> max_interaction_length
          then map_option (\<lambda>f. Inr (n, f))
                 (nudge_index_factor nextafter_zero len n (real_of_int n / len))
          else Some (Inr (n, index_factor)))"

definition axes_loop ::
  "GridOptions \<Rightarrow> CellSizeStrategy \<Rightarrow> CellNumberLimitation \<Rightarrow> (real \<Rightarrow> real) \<Rightarrow> int \<Rightarrow>
   real \<Rightarrow> vec3 \<Rightarrow> (grid_error + (int \<times> int \<times> int) \<times> vec3) option" where
  "axes_loop opt strategy limit nextafter_zero max_cells max_interaction_length len =
     (case len of (l0, l1, l2) \<Rightarrow>
        and_then (axis_step opt strategy limit nextafter_zero max_cells max_interaction_length l0)
          (\<lambda>(n0, f0).
        and_then (axis_step opt strategy limit nextafter_zero max_cells max_interaction_length l1)
          (\<lambda>(n1, f1).
        and_then (axis_step opt strategy limit nextafter_zero max_cells max_interaction_length l2)
          (\<lambda>(n2, f2). Some (Inr ((n0, n1, n2), (f0, f1, f2)))))))"

subsection \<open>The constructor: placing the particles (lines 249-283)\<close>

text \<open>\<open>make_index\<close>, lines 289-293; the first argument is \<open>number_of_cells_\<close>.\<close>

definition make_index :: "int \<times> int \<times> int \<Rightarrow> int \<Rightarrow> int \<Rightarrow> int \<Rightarrow> int" where
  "make_index noc x y z = (case noc of (nx, ny, nz) \<Rightarrow> (z * ny + y) * nx + x)"

text \<open>\<open>make_index\<close> on 32 bit integers: every intermediate result has to be in range.\<close>

definition make_index_int :: "int \<times> int \<times> int \<Rightarrow> int \<Rightarrow> int \<Rightarrow> int \<Rightarrow> grid_error + int" where
  "make_index_int noc x y z =
     (case noc of (nx, ny, nz) \<Rightarrow>
        if int_range (z * ny) \<and> int_range (z * ny + y) \<and> int_range ((z * ny + y) * nx) \<and>
           int_range ((z * ny + y) * nx + x)
        then Inr (make_index noc x y z) else Inl Undefined_Behaviour)"

text \<open>The lambda \<open>cell_index_for\<close>, lines 256-261.\<close>

definition cell_index_for ::
  "int \<times> int \<times> int \<Rightarrow> vec3 \<Rightarrow> vec3 \<Rightarrow> ParticleData \<Rightarrow> grid_error + int" where
  "cell_index_for noc min_position index_factor p =
     (case (min_position, index_factor) of
        ((m0, m1, m2), (f0, f1, f2)) \<Rightarrow>
          (case floor_to_int ((x1 (position p) - m0) * f0) of
             Inl e \<Rightarrow> Inl e
           | Inr x \<Rightarrow>
          (case floor_to_int ((x2 (position p) - m1) * f1) of
             Inl e \<Rightarrow> Inl e
           | Inr y \<Rightarrow>
          (case floor_to_int ((x3 (position p) - m2) * f2) of
             Inl e \<Rightarrow> Inl e
           | Inr z \<Rightarrow> make_index_int noc x y z))))"

text \<open>The loop of lines 262-283. An index at or beyond \<open>cells_.size()\<close> is caught by the
  check of lines 268-281 unless \<open>NDEBUG\<close> is defined; a negative index is not tested.\<close>

fun place_particles ::
  "bool \<Rightarrow> int \<times> int \<times> int \<Rightarrow> vec3 \<Rightarrow> vec3 \<Rightarrow> real \<Rightarrow> bool \<Rightarrow> ParticleList \<Rightarrow>
   ParticleList list \<Rightarrow> grid_error + ParticleList list" where
  "place_particles ndebug noc min_position index_factor timestep_duration
     include_unformed_particles [] cs = Inr cs"
| "place_particles ndebug noc min_position index_factor timestep_duration
     include_unformed_particles (p # ps) cs =
     (if \<not> include_unformed_particles \<and> xsec_scaling_factor p timestep_duration \<le> 0
      then place_particles ndebug noc min_position index_factor timestep_duration
             include_unformed_particles ps cs
      else (case cell_index_for noc min_position index_factor p of
              Inl e \<Rightarrow> Inl e
            | Inr idx \<Rightarrow>
                if idx \<ge> int (length cs)
                then Inl (if ndebug then Undefined_Behaviour else Out_Of_Bounds)
                else if idx < 0 then Inl Undefined_Behaviour
                else place_particles ndebug noc min_position index_factor timestep_duration
                       include_unformed_particles ps
                       (cs[nat idx := cs ! nat idx @ [p]])))"

text \<open>\<open>cells_.resize(number_of_cells_[0] * number_of_cells_[1] * number_of_cells_[2])\<close>,
  lines 249-250, on a vector that is empty.\<close>

definition resize_cells :: "int \<times> int \<times> int \<Rightarrow> grid_error + ParticleList list" where
  "resize_cells noc =
     (case noc of (nx, ny, nz) \<Rightarrow>
        if \<not> int_range (nx * ny) \<or> \<not> int_range (nx * ny * nz) then Inl Undefined_Behaviour
        else if nx * ny * nz < 0 then Inl Length_Error
        else Inr (replicate (nat (nx * ny * nz)) []))"

subsection \<open>The constructor (lines 115-287)\<close>

definition single_cell :: "vec3 \<Rightarrow> ParticleList \<Rightarrow> Grid" where
  "single_cell len content =
     (case len of (l0, l1, l2) \<Rightarrow>
        \<lparr>grid_length = len, cell_volume = l0 * l1 * l2, number_of_cells = (1, 1, 1),
         cells = [content]\<rparr>)"

text \<open>Lines 142-145: the bound on the number of cells of one axis.\<close>

definition max_cells_of :: "GridOptions \<Rightarrow> int \<Rightarrow> int" where
  "max_cells_of opt particle_count =
     (if opt = Normal then cbrt_to_int particle_count
      else max 2 (cbrt_to_int particle_count))"

text \<open>Lines 207-284: the cells, once the counts and the index factors are known.\<close>

definition fill_cells ::
  "GridOptions \<Rightarrow> bool \<Rightarrow> vec3 \<times> vec3 \<Rightarrow> ParticleList \<Rightarrow> real \<Rightarrow> bool \<Rightarrow>
   (int \<times> int \<times> int) \<times> vec3 \<Rightarrow> grid_error + Grid" where
  "fill_cells opt ndebug min_and_length particles timestep_duration
     include_unformed_particles counts_and_factors =
     (case (min_and_length, counts_and_factors) of
        ((min_position, len), (noc, index_factor)) \<Rightarrow>
          (case (len, noc) of
             ((l0, l1, l2), (n0, n1, n2)) \<Rightarrow>
               if opt = Normal \<and> n0 \<le> 2 \<and> n1 \<le> 2 \<and> n2 \<le> 2
               then Inr (single_cell len
                      (if include_unformed_particles then copy_to_vector particles
                       else filter (\<lambda>p. xsec_scaling_factor p timestep_duration > 0)
                              particles))
               else
                 (case resize_cells noc of
                    Inl e \<Rightarrow> Inl e
                  | Inr empty_cells \<Rightarrow>
                      (case place_particles ndebug noc min_position index_factor
                              timestep_duration include_unformed_particles particles
                              empty_cells of
                         Inl e \<Rightarrow> Inl e
                       | Inr cs \<Rightarrow>
                           Inr \<lparr>grid_length = len,
                                cell_volume = (l0 / real_of_int n0) * (l1 / real_of_int n1) *
                                              (l2 / real_of_int n2),
                                number_of_cells = noc,
                                cells = cs\<rparr>))))"

definition construct ::
  "GridOptions \<Rightarrow> bool \<Rightarrow> (real \<Rightarrow> real) \<Rightarrow> vec3 \<times> vec3 \<Rightarrow> ParticleList \<Rightarrow> real \<Rightarrow> real \<Rightarrow>
   CellNumberLimitation \<Rightarrow> bool \<Rightarrow> CellSizeStrategy \<Rightarrow> (grid_error + Grid) option" where
  "construct opt ndebug nextafter_zero min_and_length particles max_interaction_length
     timestep_duration limit include_unformed_particles strategy =
     (let len = snd min_and_length;
          particle_count = int (length particles)
      in
      if opt = Normal \<and> strategy = Largest
      then Some (Inr (single_cell len (copy_to_vector particles)))
      else
        and_then
          (axes_loop opt strategy limit nextafter_zero (max_cells_of opt particle_count)
             max_interaction_length len)
          (\<lambda>counts_and_factors.
             Some (fill_cells opt ndebug min_and_length particles timestep_duration
                     include_unformed_particles counts_and_factors)))"

subsection \<open>Enumeration of the cells: the callbacks\<close>

text \<open>A call of \<open>search_cell_callback\<close> or of \<open>neighbor_cell_callback\<close>. The lists are the
  arguments of the call; the integers are the flat indices of the cells the lists were
  read from (the search cell first), which the callbacks do not see.\<close>

datatype call =
  Search_Cell int ParticleList
| Neighbor_Cell int ParticleList int ParticleList

text \<open>The flat indices of the two cells of every call of \<open>neighbor_cell_callback\<close>.\<close>

fun neighbor_pairs :: "call list \<Rightarrow> (int \<times> int) list" where
  "neighbor_pairs [] = []"
| "neighbor_pairs (Search_Cell i s # cs) = neighbor_pairs cs"
| "neighbor_pairs (Neighbor_Cell i s j n # cs) = (i, j) # neighbor_pairs cs"

subsection \<open>\<open>Grid<GridOptions::Normal>::iterate_cells\<close> (lines 301-345)\<close>

definition ZERO :: "int list" where
  "ZERO = [0]"

definition ZERO_ONE :: "int list" where
  "ZERO_ONE = [0, 1]"

definition MINUS_ONE_ZERO :: "int list" where
  "MINUS_ONE_ZERO = [- 1, 0]"

definition MINUS_ONE_ZERO_ONE :: "int list" where
  "MINUS_ONE_ZERO_ONE = [- 1, 0, 1]"

text \<open>The body of the innermost loop over the cells, lines 315-341.\<close>

definition search_cell_normal :: "Grid \<Rightarrow> int \<times> int \<times> int \<Rightarrow> int \<Rightarrow> call list" where
  "search_cell_normal g search_index search_cell_index =
     (case (number_of_cells g, search_index) of
        ((nx, ny, nz), (x, y, z)) \<Rightarrow>
          let search = cells g ! nat search_cell_index;
              dz_list = (if z = nz - 1 then ZERO else ZERO_ONE);
              dy_list = (if ny = 1 then ZERO
                         else if y = 0 then ZERO_ONE
                         else if y = ny - 1 then MINUS_ONE_ZERO
                         else MINUS_ONE_ZERO_ONE);
              dx_list = (if nx = 1 then ZERO
                         else if x = 0 then ZERO_ONE
                         else if x = nx - 1 then MINUS_ONE_ZERO
                         else MINUS_ONE_ZERO_ONE)
          in Search_Cell search_cell_index search #
             concat (map (\<lambda>dz.
               concat (map (\<lambda>dy.
                 concat (map (\<lambda>dx.
                   let di = make_index (number_of_cells g) dx dy dz in
                   if di > 0
                   then [Neighbor_Cell search_cell_index search
                           (search_cell_index + di) (cells g ! nat (search_cell_index + di))]
                   else []) dx_list)) dy_list)) dz_list))"

text \<open>The three loops over the cells; the state is the list of calls made so far and the
  counter \<open>search_cell_index\<close>.\<close>

definition iterate_cells_normal :: "Grid \<Rightarrow> call list" where
  "iterate_cells_normal g =
     (case number_of_cells g of
        (nx, ny, nz) \<Rightarrow>
          fst (fold (\<lambda>z.
                 fold (\<lambda>y.
                   fold (\<lambda>x (out, search_cell_index).
                           (out @ search_cell_normal g (x, y, z) search_cell_index,
                            search_cell_index + 1))
                     [0..nx - 1])
                   [0..ny - 1])
                 [0..nz - 1] ([], 0)))"

subsection \<open>\<open>Grid<GridOptions::PeriodicBoundaries>::iterate_cells\<close> (lines 355-488)\<close>

datatype NeedsToWrap = PlusLength | No | MinusLength

record NeighborLookup =
  index :: int
  wrap :: NeedsToWrap

definition vec_minus :: "vec3 \<Rightarrow> vec3 \<Rightarrow> vec3" where
  "vec_minus a b = (case (a, b) of ((a0, a1, a2), (b0, b1, b2)) \<Rightarrow> (a0 - b0, a1 - b1, a2 - b2))"

text \<open>The variables of lines 424-429 that the loops over the neighbors change, and the
  calls made so far.\<close>

record neighbor_search =
  virtual_search_index :: "int \<times> int \<times> int"
  wrap_vector :: vec3
  current_wrap_vector :: vec3
  search :: ParticleList
  calls :: "call list"

text \<open>Lines 446-477: one iteration of the loop over \<open>dx_list\<close>.\<close>

definition dx_step ::
  "Grid \<Rightarrow> int \<Rightarrow> NeighborLookup \<Rightarrow> NeighborLookup \<Rightarrow> NeighborLookup \<Rightarrow> neighbor_search \<Rightarrow>
   neighbor_search" where
  "dx_step g search_cell_index dz dy dx st =
     (case (number_of_cells g, grid_length g) of
        ((nx, ny, nz), (l0, l1, l2)) \<Rightarrow>
          let st1 =
                (if wrap dx = MinusLength
                 then (case (wrap_vector st, virtual_search_index st) of
                         ((w0, w1, w2), (v0, v1, v2)) \<Rightarrow>
                           st\<lparr>wrap_vector := (- l0, w1, w2),
                              virtual_search_index := (- 1, v1, v2)\<rparr>)
                 else if wrap dx = PlusLength
                 then (case (wrap_vector st, virtual_search_index st) of
                         ((w0, w1, w2), (v0, v1, v2)) \<Rightarrow>
                           st\<lparr>wrap_vector := (l0, w1, w2),
                              virtual_search_index := (nx, v1, v2)\<rparr>)
                 else st);
              neighbor_cell_index = make_index (number_of_cells g) (index dx) (index dy) (index dz)
          in
          if neighbor_cell_index \<le>
             (case virtual_search_index st1 of
                (v0, v1, v2) \<Rightarrow> make_index (number_of_cells g) v0 v1 v2)
          then st1
          else
            let st2 =
                  (if wrap_vector st1 \<noteq> current_wrap_vector st1
                   then st1\<lparr>search :=
                              map (translated
                                     (vec_minus (wrap_vector st1) (current_wrap_vector st1)))
                                (search st1),
                            current_wrap_vector := wrap_vector st1\<rparr>
                   else st1)
            in st2\<lparr>calls := calls st2 @
                     [Neighbor_Cell search_cell_index (search st2)
                        neighbor_cell_index (cells g ! nat neighbor_cell_index)]\<rparr>)"

text \<open>Lines 437-481: one iteration of the loop over \<open>dy_list\<close>.\<close>

definition dy_step ::
  "Grid \<Rightarrow> int \<times> int \<times> int \<Rightarrow> int \<Rightarrow> NeighborLookup list \<Rightarrow> NeighborLookup \<Rightarrow> NeighborLookup \<Rightarrow>
   neighbor_search \<Rightarrow> neighbor_search" where
  "dy_step g search_index search_cell_index dx_list dz dy st =
     (case (number_of_cells g, grid_length g) of
        ((nx, ny, nz), (l0, l1, l2)) \<Rightarrow>
          let st1 =
                (if wrap dy = MinusLength
                 then (case (wrap_vector st, virtual_search_index st) of
                         ((w0, w1, w2), (v0, v1, v2)) \<Rightarrow>
                           st\<lparr>wrap_vector := (w0, - l1, w2),
                              virtual_search_index := (v0, - 1, v2)\<rparr>)
                 else if wrap dy = PlusLength
                 then (case (wrap_vector st, virtual_search_index st) of
                         ((w0, w1, w2), (v0, v1, v2)) \<Rightarrow>
                           st\<lparr>wrap_vector := (w0, l1, w2),
                              virtual_search_index := (v0, ny, v2)\<rparr>)
                 else st);
              st2 = fold (dx_step g search_cell_index dz dy) dx_list st1
          in
          (case (wrap_vector st2, virtual_search_index st2) of
             ((w0, w1, w2), (v0, v1, v2)) \<Rightarrow>
               st2\<lparr>virtual_search_index := (fst search_index, v1, v2),
                   wrap_vector := (0, w1, w2)\<rparr>))"

text \<open>Lines 431-484: one iteration of the loop over \<open>dz_list\<close>.\<close>

definition dz_step ::
  "Grid \<Rightarrow> int \<times> int \<times> int \<Rightarrow> int \<Rightarrow> NeighborLookup list \<Rightarrow> NeighborLookup list \<Rightarrow>
   NeighborLookup \<Rightarrow> neighbor_search \<Rightarrow> neighbor_search" where
  "dz_step g search_index search_cell_index dy_list dx_list dz st =
     (case (number_of_cells g, grid_length g) of
        ((nx, ny, nz), (l0, l1, l2)) \<Rightarrow>
          let st1 =
                (if wrap dz = MinusLength
                 then (case (wrap_vector st, virtual_search_index st) of
                         ((w0, w1, w2), (v0, v1, v2)) \<Rightarrow>
                           st\<lparr>wrap_vector := (w0, w1, - l2),
                              virtual_search_index := (v0, v1, - 1)\<rparr>)
                 else st);
              st2 = fold (dy_step g search_index search_cell_index dx_list dz) dy_list st1
          in
          (case (wrap_vector st2, virtual_search_index st2) of
             ((w0, w1, w2), (v0, v1, v2)) \<Rightarrow>
               st2\<lparr>virtual_search_index := (v0, fst (snd search_index), v2),
                   wrap_vector := (w0, 0, w2)\<rparr>))"

text \<open>Lines 421-484: the calls for one search cell, appended to \<open>out\<close>.\<close>

definition search_cell_periodic ::
  "Grid \<Rightarrow> int \<times> int \<times> int \<Rightarrow> int \<Rightarrow> NeighborLookup list \<Rightarrow> NeighborLookup list \<Rightarrow>
   NeighborLookup list \<Rightarrow> call list \<Rightarrow> call list" where
  "search_cell_periodic g search_index search_cell_index dz_list dy_list dx_list out =
     (let search0 = cells g ! nat search_cell_index in
      calls (fold (dz_step g search_index search_cell_index dy_list dx_list) dz_list
               \<lparr>virtual_search_index = search_index,
                wrap_vector = (0, 0, 0),
                current_wrap_vector = (0, 0, 0),
                search = search0,
                calls = out @ [Search_Cell search_cell_index search0]\<rparr>))"

text \<open>The variables that live across the loops over the cells: the three arrays of
  lines 378-380, the counter and the calls made so far.\<close>

record iteration =
  dz_list :: "NeighborLookup \<times> NeighborLookup"
  dy_list :: "NeighborLookup \<times> NeighborLookup \<times> NeighborLookup"
  dx_list :: "NeighborLookup \<times> NeighborLookup \<times> NeighborLookup"
  search_cell_index :: int
  calls_made :: "call list"

text \<open>Lines 407-485: one iteration of the loop over \<open>x\<close>.\<close>

definition x_step :: "Grid \<Rightarrow> int \<Rightarrow> int \<Rightarrow> int \<Rightarrow> iteration \<Rightarrow> iteration" where
  "x_step g z y x st =
     (case (number_of_cells g, dx_list st) of
        ((nx, ny, nz), (d0, d1, d2)) \<Rightarrow>
          let d0 = d0\<lparr>index := x\<rparr>;
              d1 = d1\<lparr>index := x - 1\<rparr>;
              d2 = d2\<lparr>index := x + 1\<rparr>;
              d2 = d2\<lparr>wrap := No\<rparr>;
              (d1, d2) =
                (if x = 0 then (d2, d2\<lparr>index := nx - 1, wrap := PlusLength\<rparr>)
                 else if index d2 = nx then (d1, d2\<lparr>index := 0, wrap := MinusLength\<rparr>)
                 else (d1, d2))
          in
          (case (dz_list st, dy_list st) of
             ((z0, z1), (y0, y1, y2)) \<Rightarrow>
               st\<lparr>dx_list := (d0, d1, d2),
                  calls_made := search_cell_periodic g (x, y, z) (search_cell_index st)
                              [z0, z1] [y0, y1, y2] [d0, d1, d2] (calls_made st),
                  search_cell_index := search_cell_index st + 1\<rparr>))"

text \<open>Lines 394-486: one iteration of the loop over \<open>y\<close>.\<close>

definition y_step :: "Grid \<Rightarrow> int \<Rightarrow> int \<Rightarrow> iteration \<Rightarrow> iteration" where
  "y_step g z y st =
     (case (number_of_cells g, dy_list st) of
        ((nx, ny, nz), (d0, d1, d2)) \<Rightarrow>
          let d0 = d0\<lparr>index := y\<rparr>;
              d1 = d1\<lparr>index := y - 1\<rparr>;
              d2 = d2\<lparr>index := y + 1\<rparr>;
              d2 = d2\<lparr>wrap := No\<rparr>;
              (d1, d2) =
                (if y = 0 then (d2, d2\<lparr>index := ny - 1, wrap := PlusLength\<rparr>)
                 else if index d2 = ny then (d1, d2\<lparr>index := 0, wrap := MinusLength\<rparr>)
                 else (d1, d2))
          in fold (x_step g z y) [0..nx - 1] (st\<lparr>dy_list := (d0, d1, d2)\<rparr>))"

text \<open>Lines 386-487: one iteration of the loop over \<open>z\<close>.\<close>

definition z_step :: "Grid \<Rightarrow> int \<Rightarrow> iteration \<Rightarrow> iteration" where
  "z_step g z st =
     (case (number_of_cells g, dz_list st) of
        ((nx, ny, nz), (d0, d1)) \<Rightarrow>
          let d0 = d0\<lparr>index := z\<rparr>;
              d1 = d1\<lparr>index := z + 1\<rparr>;
              d1 = (if index d1 = nz then d1\<lparr>index := 0, wrap := MinusLength\<rparr> else d1)
          in fold (y_step g z) [0..ny - 1] (st\<lparr>dz_list := (d0, d1)\<rparr>))"

text \<open>The default member initialisers of \<open>NeighborLookup\<close>, lines 358-363.\<close>

definition default_lookup :: NeighborLookup where
  "default_lookup = \<lparr>index = 0, wrap = No\<rparr>"

text \<open>The whole enumeration. The source asserts that every axis has at least two cells
  (lines 382-384).\<close>

definition iterate_cells_periodic :: "Grid \<Rightarrow> call list" where
  "iterate_cells_periodic g =
     (case number_of_cells g of
        (nx, ny, nz) \<Rightarrow>
          calls_made (fold (z_step g) [0..nz - 1]
                    \<lparr>dz_list = (default_lookup, default_lookup),
                     dy_list = (default_lookup, default_lookup, default_lookup),
                     dx_list = (default_lookup, default_lookup, default_lookup),
                     search_cell_index = 0,
                     calls_made = []\<rparr>))"

subsection \<open>Notions used in the statements about the constructor\<close>

text \<open>What the proofs use of \<open>std::nextafter(x, 0.)\<close>: the result lies strictly nearer to
  zero than a non-zero argument, on the same side of zero.\<close>

definition towards_zero :: "(real \<Rightarrow> real) \<Rightarrow> bool" where
  "towards_zero nextafter_zero \<longleftrightarrow>
     (\<forall>x. (0 < x \<longrightarrow> 0 \<le> nextafter_zero x \<and> nextafter_zero x < x) \<and>
          (x < 0 \<longrightarrow> x < nextafter_zero x \<and> nextafter_zero x \<le> 0))"





text \<open>The bounding box of the data model: \<open>min_position[i] \<le> position[i] \<le>
  min_position[i] + length[i]\<close> on every axis.\<close>

definition inside_box :: "vec3 \<times> vec3 \<Rightarrow> ParticleData \<Rightarrow> bool" where
  "inside_box min_and_length p \<longleftrightarrow>
     (case min_and_length of
        ((m0, m1, m2), (l0, l1, l2)) \<Rightarrow>
          m0 \<le> x1 (position p) \<and> x1 (position p) \<le> m0 + l0 \<and>
          m1 \<le> x2 (position p) \<and> x2 (position p) \<le> m1 + l1 \<and>
          m2 \<le> x3 (position p) \<and> x3 (position p) \<le> m2 + l2)"

text \<open>The particles that the constructor is to place: all of them, or those with a
  positive scaling factor of the cross section.\<close>

definition eligible :: "bool \<Rightarrow> real \<Rightarrow> ParticleData \<Rightarrow> bool" where
  "eligible include_unformed_particles timestep_duration p \<longleftrightarrow>
     include_unformed_particles \<or> xsec_scaling_factor p timestep_duration > 0"

subsection \<open>Concrete inputs\<close>

text \<open>A particle at time 0 that is fully formed, and one that forms at time 1 with the
  initial scaling factor 0: up to then its scaling factor is exactly 0.\<close>

definition formed_particle :: "int \<Rightarrow> real \<Rightarrow> real \<Rightarrow> real \<Rightarrow> ParticleData" where
  "formed_particle i x y z =
     \<lparr>particle_id = i, position = (0, x, y, z), formation_time = 0,
      begin_formation_time = 0, initial_xsec_scaling_factor = 1, formation_power = 0\<rparr>"

definition unformed_particle :: "int \<Rightarrow> real \<Rightarrow> real \<Rightarrow> real \<Rightarrow> ParticleData" where
  "unformed_particle i x y z =
     \<lparr>particle_id = i, position = (0, x, y, z), formation_time = 1,
      begin_formation_time = 0, initial_xsec_scaling_factor = 0, formation_power = 0\<rparr>"

text \<open>A function in the place of \<open>std::nextafter(x, 0.)\<close>: one part in \<open>2 ^ 53\<close> nearer to
  zero.\<close>

definition one_ulp_towards_zero :: "real \<Rightarrow> real" where
  "one_ulp_towards_zero x = x * (1 - 1 / 2 ^ 53)"

subsection \<open>Notions used in the statements about the enumeration\<close>

text \<open>\<open>make_index(std::array<SizeType, 3> idx)\<close>, grid.h lines 185-187.\<close>

definition make_index_array :: "int \<times> int \<times> int \<Rightarrow> int \<times> int \<times> int \<Rightarrow> int" where
  "make_index_array noc idx = (case idx of (x, y, z) \<Rightarrow> make_index noc x y z)"

text \<open>The cells of a grid, by their three indices.\<close>

definition in_grid :: "int \<times> int \<times> int \<Rightarrow> int \<times> int \<times> int \<Rightarrow> bool" where
  "in_grid noc c \<longleftrightarrow>
     (case (noc, c) of
        ((nx, ny, nz), (x, y, z)) \<Rightarrow> 0 \<le> x \<and> x < nx \<and> 0 \<le> y \<and> y < ny \<and> 0 \<le> z \<and> z < nz)"

text \<open>Two distinct cells that touch in a face, an edge or a corner.\<close>

definition adjacent :: "int \<times> int \<times> int \<Rightarrow> int \<times> int \<times> int \<Rightarrow> bool" where
  "adjacent c c' \<longleftrightarrow>
     c \<noteq> c' \<and>
     (case (c, c') of
        ((x, y, z), (x', y', z')) \<Rightarrow> \<bar>x' - x\<bar> \<le> 1 \<and> \<bar>y' - y\<bar> \<le> 1 \<and> \<bar>z' - z\<bar> \<le> 1)"

text \<open>The number of calls of \<open>neighbor_cell_callback\<close> on the cells with the flat indices
  \<open>a\<close> and \<open>b\<close>, in either order.\<close>

definition pair_calls :: "call list \<Rightarrow> int \<Rightarrow> int \<Rightarrow> nat" where
  "pair_calls cs a b =
     length (filter (\<lambda>(i, j). (i = a \<and> j = b) \<or> (i = b \<and> j = a)) (neighbor_pairs cs))"

text \<open>The cells in the order in which the loops over \<open>z\<close>, \<open>y\<close> and \<open>x\<close> visit them.\<close>

definition raster_cells :: "int \<times> int \<times> int \<Rightarrow> (int \<times> int \<times> int) list" where
  "raster_cells noc =
     (case noc of
        (nx, ny, nz) \<Rightarrow>
          concat (map (\<lambda>z. concat (map (\<lambda>y. map (\<lambda>x. (x, y, z)) [0..nx - 1]) [0..ny - 1]))
            [0..nz - 1]))"

text \<open>A grid with the given numbers of cells and no particle.\<close>

definition empty_grid :: "int \<times> int \<times> int \<Rightarrow> Grid" where
  "empty_grid noc =
     (case noc of
        (nx, ny, nz) \<Rightarrow>
          \<lparr>grid_length = (1, 1, 1), cell_volume = 1 / real_of_int (nx * ny * nz),
           number_of_cells = noc, cells = replicate (nat (nx * ny * nz)) []\<rparr>)"

text \<open>A call with its lists replaced by the contents of the cells whose flat indices it
  carries: a call that hands over the cells themselves is left as it is.\<close>

fun from_cells :: "Grid \<Rightarrow> call \<Rightarrow> call" where
  "from_cells g (Search_Cell i s) = Search_Cell i (cells g ! nat i)"
| "from_cells g (Neighbor_Cell i s j n) = Neighbor_Cell i (cells g ! nat i) j (cells g ! nat j)"

text \<open>The number of calls of \<open>neighbor_cell_callback\<close> that hand over the contents of the
  cells with the flat indices \<open>a\<close> and \<open>b\<close>, in either order.\<close>

definition cell_pair_calls :: "Grid \<Rightarrow> call list \<Rightarrow> int \<Rightarrow> int \<Rightarrow> nat" where
  "cell_pair_calls g cs a b =
     length (filter (\<lambda>c. c = Neighbor_Cell a (cells g ! nat a) b (cells g ! nat b) \<or>
                         c = Neighbor_Cell b (cells g ! nat b) a (cells g ! nat a)) cs)"

text \<open>A grid with cells of edge 1 and one particle in the middle of every cell; the
  particle carries the flat index of its cell.\<close>

definition one_particle_grid :: "int \<times> int \<times> int \<Rightarrow> Grid" where
  "one_particle_grid noc =
     (case noc of
        (nx, ny, nz) \<Rightarrow>
          \<lparr>grid_length = (real_of_int nx, real_of_int ny, real_of_int nz), cell_volume = 1,
           number_of_cells = noc,
           cells = map (\<lambda>(x, y, z). [formed_particle (make_index noc x y z)
                         (real_of_int x + 1 / 2) (real_of_int y + 1 / 2) (real_of_int z + 1 / 2)])
                     (raster_cells noc)\<rparr>)"

text \<open>The contents of \<open>dy_list\<close> and \<open>dx_list\<close> after lines 395-406 and 408-419, for the index
  \<open>c\<close> on an axis with \<open>n\<close> cells, and of \<open>dz_list\<close> after lines 387-393.\<close>

definition lookups :: "int \<Rightarrow> int \<Rightarrow> NeighborLookup list" where
  "lookups n c =
     [\<lparr>index = c, wrap = No\<rparr>,
      (if c = 0 then \<lparr>index = c + 1, wrap = No\<rparr> else \<lparr>index = c - 1, wrap = No\<rparr>),
      (if c = 0 then \<lparr>index = n - 1, wrap = PlusLength\<rparr>
       else if c + 1 = n then \<lparr>index = 0, wrap = MinusLength\<rparr>
       else \<lparr>index = c + 1, wrap = No\<rparr>)]"

definition z_lookups :: "int \<Rightarrow> int \<Rightarrow> NeighborLookup list" where
  "z_lookups n c =
     [\<lparr>index = c, wrap = No\<rparr>,
      (if c + 1 = n then \<lparr>index = 0, wrap = MinusLength\<rparr> else \<lparr>index = c + 1, wrap = No\<rparr>)]"

text \<open>The entry of \<open>virtual_search_index\<close> that belongs to a lookup (lines 432-454): the
  index of the search cell, or the sentinel beyond the end of the axis that was wrapped.\<close>

definition virtual_index :: "int \<Rightarrow> int \<Rightarrow> NeighborLookup \<Rightarrow> int" where
  "virtual_index n c e =
     (case wrap e of MinusLength \<Rightarrow> - 1 | PlusLength \<Rightarrow> n | No \<Rightarrow> c)"

text \<open>The directions that lead from the cell \<open>c\<close> to the cell \<open>c'\<close> in a grid with periodic
  boundaries: steps of at most one cell on every axis, not all zero, taken modulo the
  numbers of cells. Two cells are adjacent if there is such a direction.\<close>

definition directions ::
  "int \<times> int \<times> int \<Rightarrow> int \<times> int \<times> int \<Rightarrow> int \<times> int \<times> int \<Rightarrow> (int \<times> int \<times> int) set" where
  "directions noc c c' =
     (case (noc, c) of
        ((nx, ny, nz), (x, y, z)) \<Rightarrow>
          {(dx, dy, dz). \<bar>dx\<bar> \<le> 1 \<and> \<bar>dy\<bar> \<le> 1 \<and> \<bar>dz\<bar> \<le> 1 \<and> (dx, dy, dz) \<noteq> (0, 0, 0) \<and>
             c' = ((x + dx) mod nx, (y + dy) mod ny, (z + dz) mod nz)})"

definition adjacent_periodic ::
  "int \<times> int \<times> int \<Rightarrow> int \<times> int \<times> int \<Rightarrow> int \<times> int \<times> int \<Rightarrow> bool" where
  "adjacent_periodic noc c c' \<longleftrightarrow> directions noc c c' \<noteq> {}"

text \<open>The flat indices of the calls of \<open>neighbor_cell_callback\<close> for one search cell with
  the flat index \<open>i\<close>, from the three lists of lookups: the test of line 465 on every
  combination, in the order of the loops of lines 431-478.\<close>

definition lookup_pairs ::
  "int \<times> int \<times> int \<Rightarrow> int \<times> int \<times> int \<Rightarrow> int \<Rightarrow> NeighborLookup list \<Rightarrow> NeighborLookup list \<Rightarrow>
   NeighborLookup list \<Rightarrow> (int \<times> int) list" where
  "lookup_pairs noc c i zs ys xs =
     (case (noc, c) of
        ((nx, ny, nz), (x, y, z)) \<Rightarrow>
          concat (map (\<lambda>dz. concat (map (\<lambda>dy. concat (map (\<lambda>dx.
            if make_index noc (index dx) (index dy) (index dz)
               \<le> make_index noc (virtual_index nx x dx) (virtual_index ny y dy)
                    (virtual_index nz z dz)
            then [] else [(i, make_index noc (index dx) (index dy) (index dz))])
            xs)) ys)) zs))"

text \<open>The same for the search cell \<open>c\<close>, with the lists that the loops over the cells have
  prepared for it.\<close>

definition cell_pairs_periodic :: "int \<times> int \<times> int \<Rightarrow> int \<times> int \<times> int \<Rightarrow> (int \<times> int) list" where
  "cell_pairs_periodic noc c =
     (case (noc, c) of
        ((nx, ny, nz), (x, y, z)) \<Rightarrow>
          lookup_pairs noc c (make_index_array noc c) (z_lookups nz z) (lookups ny y)
            (lookups nx x))"

text \<open>The steps that belong to the three lookups of an axis, in the order of the list, and
  the lookup for a step \<open>d\<close> from the index \<open>c\<close> on an axis with \<open>n\<close> cells.\<close>

definition dirs :: "int \<Rightarrow> int list" where
  "dirs c = [0, (if c = 0 then 1 else - 1), (if c = 0 then - 1 else 1)]"

definition lookup_for :: "int \<Rightarrow> int \<Rightarrow> int \<Rightarrow> NeighborLookup" where
  "lookup_for n c d =
     \<lparr>index = (c + d) mod n,
      wrap = (if c + d < 0 then PlusLength else if n \<le> c + d then MinusLength else No)\<rparr>"

text \<open>The cell that the direction \<open>d\<close> leads to from the cell \<open>c\<close>, with periodic
  boundaries.\<close>

definition step_cell ::
  "int \<times> int \<times> int \<Rightarrow> int \<times> int \<times> int \<Rightarrow> int \<times> int \<times> int \<Rightarrow> int \<times> int \<times> int" where
  "step_cell noc c d =
     (case (noc, c, d) of
        ((nx, ny, nz), (x, y, z), (dx, dy, dz)) \<Rightarrow>
          ((x + dx) mod nx, (y + dy) mod ny, (z + dz) mod nz))"

text \<open>The directions for which the test of line 465 lets the call happen.\<close>

definition forward :: "int \<times> int \<times> int \<Rightarrow> bool" where
  "forward d \<longleftrightarrow>
     (case d of (dx, dy, dz) \<Rightarrow> 0 < dz \<or> (dz = 0 \<and> (0 < dy \<or> (dy = 0 \<and> 0 < dx))))"

text \<open>A grid with periodic boundaries, the length \<open>L\<close> and two cells on every axis: a
  particle at \<open>(0.01, 0, 0)\<close> in the cell with the flat index 0 and a particle at
  \<open>(L - 0.01, 0, 0)\<close> in the cell with the flat index 1.\<close>

definition wrap_test_grid :: "real \<Rightarrow> Grid" where
  "wrap_test_grid L =
     \<lparr>grid_length = (L, L, L), cell_volume = (L / 2) * (L / 2) * (L / 2),
      number_of_cells = (2, 2, 2),
      cells = [[formed_particle 2 (1 / 100) 0 0], [formed_particle 1 (L - 1 / 100) 0 0],
               [], [], [], [], [], []]\<rparr>"

subsection \<open>Notions used in the statements about the lists handed to the callbacks\<close>

text \<open>The list \<open>s\<close> arises from the list \<open>s0\<close> by the translations of lines 468-472: each
  one by the difference of the new and the previous wrap vector, starting from the wrap
  vector zero and ending with the wrap vector \<open>w\<close>.\<close>

inductive translated_by :: "ParticleList \<Rightarrow> vec3 \<Rightarrow> ParticleList \<Rightarrow> bool"
  for s0 :: ParticleList where
  translated_by_start: "translated_by s0 (0, 0, 0) s0"
| translated_by_shift:
    "translated_by s0 c s \<Longrightarrow> translated_by s0 w (map (translated (vec_minus w c)) s)"

code_pred translated_by .

text \<open>What a call is expected to be: the call of \<open>search_cell_callback\<close> for the cell
  with the flat index \<open>i\<close>, or the call of \<open>neighbor_cell_callback\<close> for the search cell
  \<open>i\<close>, shifted by the wrap vector \<open>w\<close>, and the neighbor cell \<open>j\<close>.\<close>

datatype call_shape = Search_Shape int | Neighbor_Shape int vec3 int

text \<open>A call hands over what its shape says: the contents of the search cell, or a copy of
  the contents of the search cell translated up to the wrap vector together with the
  contents of the neighbor cell as they are.\<close>

definition handed_over :: "Grid \<Rightarrow> call_shape \<Rightarrow> call \<Rightarrow> bool" where
  "handed_over g shape c =
     (case shape of
        Search_Shape i \<Rightarrow> c = Search_Cell i (cells g ! nat i)
      | Neighbor_Shape i w j \<Rightarrow>
          (case c of
             Search_Cell i' s \<Rightarrow> False
           | Neighbor_Cell i' s j' n \<Rightarrow>
               i' = i \<and> j' = j \<and> n = cells g ! nat j \<and> translated_by (cells g ! nat i) w s))"

text \<open>The entry of the wrap vector that a lookup asks for (lines 432-454).\<close>

definition wrap_length :: "real \<Rightarrow> NeighborLookup \<Rightarrow> real" where
  "wrap_length len e = (case wrap e of MinusLength \<Rightarrow> - len | PlusLength \<Rightarrow> len | No \<Rightarrow> 0)"

text \<open>The shapes of the calls of \<open>neighbor_cell_callback\<close> for one search cell, from the
  three lists of lookups, in the order of the loops of lines 431-478.\<close>

definition lookup_shapes ::
  "Grid \<Rightarrow> int \<times> int \<times> int \<Rightarrow> int \<Rightarrow> NeighborLookup list \<Rightarrow> NeighborLookup list \<Rightarrow>
   NeighborLookup list \<Rightarrow> call_shape list" where
  "lookup_shapes g c i zs ys xs =
     (case (number_of_cells g, grid_length g, c) of
        ((nx, ny, nz), (l0, l1, l2), (x, y, z)) \<Rightarrow>
          concat (map (\<lambda>dz. concat (map (\<lambda>dy. concat (map (\<lambda>dx.
            if make_index (nx, ny, nz) (index dx) (index dy) (index dz)
               \<le> make_index (nx, ny, nz) (virtual_index nx x dx) (virtual_index ny y dy)
                    (virtual_index nz z dz)
            then []
            else [Neighbor_Shape i (wrap_length l0 dx, wrap_length l1 dy, wrap_length l2 dz)
                    (make_index (nx, ny, nz) (index dx) (index dy) (index dz))])
            xs)) ys)) zs))"

text \<open>The calls for one search cell alone.\<close>

definition search_calls ::
  "Grid \<Rightarrow> int \<times> int \<times> int \<Rightarrow> int \<Rightarrow> NeighborLookup list \<Rightarrow> NeighborLookup list \<Rightarrow>
   NeighborLookup list \<Rightarrow> call list" where
  "search_calls g c i zs ys xs = search_cell_periodic g c i zs ys xs []"

text \<open>The invariant of the loops over the neighbors of the search cell \<open>i\<close>: the buffered
  copy of the search cell is translated up to \<open>current_wrap_vector\<close>, and the calls made so
  far are the expected ones.\<close>

definition search_state :: "Grid \<Rightarrow> int \<Rightarrow> call_shape list \<Rightarrow> neighbor_search \<Rightarrow> bool" where
  "search_state g i E st \<longleftrightarrow>
     translated_by (cells g ! nat i) (current_wrap_vector st) (search st) \<and>
     list_all2 (handed_over g) E (calls st)"

text \<open>The calls for the search cell \<open>c\<close>, with the lists that the loops over the cells have
  prepared for it.\<close>

definition cell_calls_periodic :: "Grid \<Rightarrow> int \<times> int \<times> int \<Rightarrow> call list" where
  "cell_calls_periodic g c =
     (case (number_of_cells g, c) of
        ((nx, ny, nz), (x, y, z)) \<Rightarrow>
          search_calls g c (make_index_array (nx, ny, nz) c) (z_lookups nz z) (lookups ny y)
            (lookups nx x))"

text \<open>The calls made before the loops over the neighbors of a search cell begin.\<close>

definition prepend_calls :: "call list \<Rightarrow> neighbor_search \<Rightarrow> neighbor_search" where
  "prepend_calls out st = st\<lparr>calls := out @ calls st\<rparr>"

text \<open>The entry of the wrap vector for the step \<open>d\<close> from the index \<open>c\<close> on an axis with
  \<open>n\<close> cells and the length \<open>len\<close>: a step that leaves the box at the upper end sees the
  search cell one box length lower, a step that leaves it at the lower end one box length
  higher.\<close>

definition wrap_shift :: "real \<Rightarrow> int \<Rightarrow> int \<Rightarrow> int \<Rightarrow> real" where
  "wrap_shift len n c d = (if c + d < 0 then len else if n \<le> c + d then - len else 0)"

text \<open>The directions of the lookups of a search cell, in the order of the loops of lines
  431-478.\<close>

definition cell_directions :: "int \<times> int \<times> int \<Rightarrow> (int \<times> int \<times> int) list" where
  "cell_directions c =
     (case c of
        (x, y, z) \<Rightarrow>
          map (\<lambda>(dz, dy, dx). (dx, dy, dz)) (List.product [0, 1] (List.product (dirs y) (dirs x))))"

text \<open>The calls expected for the search cell \<open>c\<close>: the call of \<open>search_cell_callback\<close>, then
  one call of \<open>neighbor_cell_callback\<close> for every forward direction, with the cell that the
  direction leads to and the wrap vector of the direction.\<close>

definition cell_shapes :: "Grid \<Rightarrow> int \<times> int \<times> int \<Rightarrow> call_shape list" where
  "cell_shapes g c =
     (case (number_of_cells g, grid_length g, c) of
        ((nx, ny, nz), (l0, l1, l2), (x, y, z)) \<Rightarrow>
          Search_Shape (make_index_array (nx, ny, nz) c) #
          map (\<lambda>(dx, dy, dz).
                 Neighbor_Shape (make_index_array (nx, ny, nz) c)
                   (wrap_shift l0 nx x dx, wrap_shift l1 ny y dy, wrap_shift l2 nz z dz)
                   (make_index_array (nx, ny, nz) (step_cell (nx, ny, nz) c (dx, dy, dz))))
            (filter forward (cell_directions c)))"

text \<open>The calls expected of the whole enumeration with periodic boundaries.\<close>

definition periodic_shapes :: "Grid \<Rightarrow> call_shape list" where
  "periodic_shapes g = concat (map (cell_shapes g) (raster_cells (number_of_cells g)))"

text \<open>The distance in space of two particles.\<close>

definition separation :: "ParticleData \<Rightarrow> ParticleData \<Rightarrow> real" where
  "separation a b =
     sqrt ((x1 (position a) - x1 (position b))\<^sup>2 + (x2 (position a) - x2 (position b))\<^sup>2 +
           (x3 (position a) - x3 (position b))\<^sup>2)"

section \<open>Properties of the constructor and of the enumeration\<close>

subsection \<open>The index factor and the count of one axis\<close>

lemma nudge_once:
  assumes "0 < len" and "nxt (real_of_int n / len) < real_of_int n / len"
  shows "nudge_index_factor nxt len n (real_of_int n / len) = Some (nxt (real_of_int n / len))"
proof -
  have a: "real_of_int n / len * len \<ge> real_of_int n" using assms(1) by simp
  have b: "\<not> nxt (real_of_int n / len) * len \<ge> real_of_int n"
    using assms by (simp add: pos_less_divide_eq not_le)
  show ?thesis
    by (subst nudge_index_factor.simps, simp only: a if_True, subst nudge_index_factor.simps, simp only: b if_False)
qed

lemma nudge_positive:
  assumes "towards_zero nxt" "0 < len" "0 < n"
  shows "nudge_index_factor nxt len n (real_of_int n / len) = Some (nxt (real_of_int n / len))"
    and "0 \<le> nxt (real_of_int n / len)" and "len * nxt (real_of_int n / len) < real_of_int n"
proof -
  have p: "0 < real_of_int n / len" using assms by simp
  with assms(1) have n: "0 \<le> nxt (real_of_int n / len)" "nxt (real_of_int n / len) < real_of_int n / len"
    unfolding towards_zero_def by blast+
  show "nudge_index_factor nxt len n (real_of_int n / len) = Some (nxt (real_of_int n / len))"
    by (rule nudge_once) (use assms n in auto)
  show "0 \<le> nxt (real_of_int n / len)" by (rule n)
  show "len * nxt (real_of_int n / len) < real_of_int n"
    using n(2) assms(2) by (simp add: pos_less_divide_eq mult.commute)
qed

lemma cbrt_to_int_eq:
  assumes "0 \<le> k" "k ^ 3 \<le> n" "n < (k + 1) ^ 3"
  shows "cbrt_to_int n = k"
proof -
  have a: "root 3 (real_of_int k ^ 3) = real_of_int k"
    using assms(1) by (simp add: real_root_pos2)
  have b: "root 3 ((real_of_int k + 1) ^ 3) = real_of_int k + 1"
    using assms(1) by (simp add: real_root_pos2)
  have "real_of_int k ^ 3 \<le> real_of_int n"
    using assms(2) by (metis of_int_le_iff of_int_power)
  then have "root 3 (real_of_int k ^ 3) \<le> root 3 (real_of_int n)"
    by (rule real_root_le_mono[rotated]) simp
  then have lo: "real_of_int k \<le> root 3 (real_of_int n)" by (simp only: a)
  have "real_of_int n < real_of_int ((k + 1) ^ 3)"
    using assms(3) by (simp only: of_int_less_iff)
  then have "real_of_int n < (real_of_int k + 1) ^ 3" by simp
  then have "root 3 (real_of_int n) < root 3 ((real_of_int k + 1) ^ 3)"
    by (rule real_root_less_mono[rotated]) simp
  then have hi: "root 3 (real_of_int n) < real_of_int k + 1" by (simp only: b)
  show ?thesis unfolding cbrt_to_int_def using lo hi by (simp add: floor_unique)
qed

lemma cbrt_to_int_nonneg: "0 \<le> n \<Longrightarrow> 0 \<le> cbrt_to_int n"
  unfolding cbrt_to_int_def by (simp add: real_root_ge_zero)


lemma axis_step_Largest:
  assumes "towards_zero nxt" "0 < mil" "2 \<le> mc"
  shows "\<exists>f. axis_step opt Largest limit nxt mc mil l = Some (Inr (2, f)) \<and> 0 \<le> f \<and> l * f < 2"
proof (cases "l \<ge> mil")
  case True
  then have l: "0 < l" using assms by simp
  from nudge_positive[OF assms(1) l, of 2] show ?thesis using True assms(3)
    by (simp add: axis_step_def axis_cells_def check_cells_def)
next
  case False
  then have "l * (1 / mil) < 2" using assms(2) by (simp add: pos_divide_less_eq)
  then show ?thesis using False assms
    by (simp add: axis_step_def axis_cells_def check_cells_def)
qed

lemma axis_step_Largest_result:
  assumes "2 \<le> mc"
  shows "axis_step opt Largest limit nxt mc mil l = None \<or> (\<exists>f. axis_step opt Largest limit nxt mc mil l = Some (Inr (2, f)))"
  using assms by (auto simp add: axis_step_def axis_cells_def check_cells_def)








subsection \<open>Errors of the parts of the constructor\<close>

lemma max_cells_of_periodic: "2 \<le> max_cells_of PeriodicBoundaries c"
  by (simp add: max_cells_of_def)


lemma cell_index_for_errors: "cell_index_for noc m f p = Inl e \<Longrightarrow> e = Undefined_Behaviour"
  by (auto simp add: cell_index_for_def floor_to_int_def make_index_int_def
      split: prod.splits sum.splits if_splits)

lemma place_particles_errors:
  "place_particles ndebug noc m f dt incl ps cs = Inl e \<Longrightarrow>
     e = Out_Of_Bounds \<or> e = Undefined_Behaviour"
proof (induction ps arbitrary: cs)
  case Nil
  then show ?case by simp
next
  case (Cons p ps)
  then show ?case
    by (auto split: if_splits sum.splits dest: cell_index_for_errors)
qed




lemma construct_Some_iff:
  assumes "\<not> (opt = Normal \<and> strategy = Largest)"
  shows "construct opt ndebug nxt mal ps mil dt limit incl strategy = Some (Inr g) \<longleftrightarrow>
         (\<exists>cf. axes_loop opt strategy limit nxt (max_cells_of opt (int (length ps))) mil (snd mal) = Some (Inr cf)
             \<and> fill_cells opt ndebug mal ps dt incl cf = Inr g)"
  using assms
  by (auto simp add: construct_def and_then_def Let_def split: option.splits sum.splits)





subsection \<open>The errors of the constructor\<close>



lemma towards_zero_scale:
  assumes "0 < c" "c < 1"
  shows "towards_zero (\<lambda>x. x * c)"
  unfolding towards_zero_def
proof (intro allI conjI impI)
  fix x :: real
  { assume "0 < x" then show "0 \<le> x * c" using assms by simp }
  { assume "0 < x" then show "x * c < x" using assms by simp }
  { assume "x < 0" then show "x < x * c" using assms by (simp add: mult_less_cancel_left2) }
  { assume "x < 0" then show "x * c \<le> 0" using assms by (simp add: mult_le_0_iff) }
qed



subsection \<open>Cell indices of particles inside the box\<close>

lemma towards_zero_one_ulp: "towards_zero one_ulp_towards_zero"
proof -
  have "towards_zero (\<lambda>x. x * (1 - 1 / 2 ^ 53))" by (rule towards_zero_scale) simp_all
  then show ?thesis by (simp add: one_ulp_towards_zero_def[abs_def])
qed

lemma make_index_bounds:
  assumes "0 \<le> x" "x < nx" "0 \<le> y" "y < ny" "0 \<le> z" "z < nz"
  shows "0 \<le> make_index (nx, ny, nz) x y z" and "make_index (nx, ny, nz) x y z < nx * ny * nz"
proof -
  have a: "z * ny \<le> (nz - 1) * ny" using assms by (intro mult_right_mono) auto
  then have b: "z * ny + y \<le> nz * ny - 1" using assms(4) by (simp add: algebra_simps)
  have "(z * ny + y) * nx \<le> (nz * ny - 1) * nx" using b assms by (intro mult_right_mono) auto
  then show "make_index (nx, ny, nz) x y z < nx * ny * nz"
    using assms(2) by (simp add: make_index_def algebra_simps)
  show "0 \<le> make_index (nx, ny, nz) x y z" using assms by (simp add: make_index_def)
qed

lemma make_index_int_eq:
  assumes "0 \<le> x" "x < nx" "0 \<le> y" "y < ny" "0 \<le> z" "z < nz" "nx * ny * nz \<le> INT_MAX"
  shows "make_index_int (nx, ny, nz) x y z = Inr (make_index (nx, ny, nz) x y z)"
proof -
  note b = make_index_bounds[OF assms(1-6)]
  have 1: "0 \<le> z * ny" using assms by simp
  have 2: "z * ny \<le> z * ny + y" using assms by simp
  have 3: "0 \<le> z * ny + y" using 1 assms by simp
  have 4: "(z * ny + y) * 1 \<le> (z * ny + y) * nx" using 3 assms by (intro mult_left_mono) auto
  have 5: "(z * ny + y) * nx \<le> (z * ny + y) * nx + x" using assms by simp
  have 6: "(z * ny + y) * nx + x < nx * ny * nz" using b(2) by (simp add: make_index_def)
  show ?thesis using 1 2 3 4 5 6 assms(7)
    by (simp add: make_index_int_def int_range_def INT_MIN_def)
qed

lemma axis_index_bounds:
  assumes "0 \<le> f" "l * f < real_of_int n" "m \<le> x" "x \<le> m + l" "n \<le> INT_MAX"
  shows "floor_to_int ((x - m) * f) = Inr \<lfloor>(x - m) * f\<rfloor>" and "0 \<le> \<lfloor>(x - m) * f\<rfloor>"
    and "\<lfloor>(x - m) * f\<rfloor> < n"
proof -
  have lo: "0 \<le> (x - m) * f" using assms by simp
  have "(x - m) * f \<le> l * f" using assms by (intro mult_right_mono) auto
  then have hi: "(x - m) * f < real_of_int n" using assms(2) by simp
  show 1: "0 \<le> \<lfloor>(x - m) * f\<rfloor>" using lo by simp
  show 2: "\<lfloor>(x - m) * f\<rfloor> < n" using hi by (simp add: floor_less_iff)
  show "floor_to_int ((x - m) * f) = Inr \<lfloor>(x - m) * f\<rfloor>"
    using 1 2 assms(5) unfolding floor_to_int_def int_range_def INT_MIN_def by auto
qed

lemma cell_index_for_in_range:
  assumes "inside_box ((m0, m1, m2), (l0, l1, l2)) p"
    and "0 \<le> f0" "l0 * f0 < real_of_int nx"
    and "0 \<le> f1" "l1 * f1 < real_of_int ny"
    and "0 \<le> f2" "l2 * f2 < real_of_int nz"
    and "nx * ny * nz \<le> INT_MAX" "nx \<le> INT_MAX" "ny \<le> INT_MAX" "nz \<le> INT_MAX"
  shows "\<exists>i. cell_index_for (nx, ny, nz) (m0, m1, m2) (f0, f1, f2) p = Inr i \<and>
             0 \<le> i \<and> i < nx * ny * nz"
proof -
  from assms(1) have box:
    "m0 \<le> x1 (position p)" "x1 (position p) \<le> m0 + l0"
    "m1 \<le> x2 (position p)" "x2 (position p) \<le> m1 + l1"
    "m2 \<le> x3 (position p)" "x3 (position p) \<le> m2 + l2"
    by (simp_all add: inside_box_def)
  note ax = axis_index_bounds[OF assms(2,3) box(1,2) assms(9)]
  note ay = axis_index_bounds[OF assms(4,5) box(3,4) assms(10)]
  note az = axis_index_bounds[OF assms(6,7) box(5,6) assms(11)]
  note mi = make_index_int_eq[OF ax(2,3) ay(2,3) az(2,3) assms(8)]
  note mb = make_index_bounds[OF ax(2,3) ay(2,3) az(2,3)]
  show ?thesis using ax(1) ay(1) az(1) mi mb by (simp add: cell_index_for_def)
qed

lemma place_particles_length:
  "place_particles ndebug noc m f dt incl ps cs = Inr cs' \<Longrightarrow> length cs' = length cs"
proof (induction ps arbitrary: cs)
  case Nil
  then show ?case by simp
next
  case (Cons p ps)
  then show ?case by (auto split: if_splits sum.splits)
qed

lemma place_particles_ok:
  assumes "\<forall>p\<in>set ps. \<exists>i. cell_index_for noc m f p = Inr i \<and> 0 \<le> i \<and> i < int (length cs)"
  shows "\<exists>cs'. place_particles ndebug noc m f dt incl ps cs = Inr cs'"
  using assms
proof (induction ps arbitrary: cs)
  case Nil
  then show ?case by simp
next
  case (Cons p ps)
  from Cons.prems obtain i where i: "cell_index_for noc m f p = Inr i" "0 \<le> i" "i < int (length cs)"
    by auto
  have rest: "\<And>cs'. length cs' = length cs \<Longrightarrow>
      \<exists>cs''. place_particles ndebug noc m f dt incl ps cs' = Inr cs''"
    using Cons.prems by (intro Cons.IH) auto
  show ?case using i rest[of cs] rest[of "cs[nat i := cs ! nat i @ [p]]"] by auto
qed


lemma axis_step_nudged:
  assumes "axis_cells opt strategy limit mc (1 / mil) l = Inr n" "mil \<le> l" "0 < l"
    "nxt (real_of_int n / l) < real_of_int n / l"
  shows "axis_step opt strategy limit nxt mc mil l = Some (Inr (n, nxt (real_of_int n / l)))"
  using assms(1,2) nudge_once[of l nxt n, OF assms(3,4)] by (simp add: axis_step_def)

lemma axis_step_plain:
  assumes "axis_cells opt strategy limit mc (1 / mil) l = Inr n" "l < mil"
  shows "axis_step opt strategy limit nxt mc mil l = Some (Inr (n, 1 / mil))"
  using assms by (simp add: axis_step_def)

lemma axes_loop_Largest_periodic:
  assumes "2 \<le> mc"
  shows "axes_loop PeriodicBoundaries Largest limit nxt mc mil len = None \<or>
         (\<exists>f. axes_loop PeriodicBoundaries Largest limit nxt mc mil len = Some (Inr ((2, 2, 2), f)))"
proof -
  obtain l0 l1 l2 where len: "len = (l0, l1, l2)" by (cases len) auto
  from axis_step_Largest_result[OF assms, of PeriodicBoundaries limit nxt mil l0]
    axis_step_Largest_result[OF assms, of PeriodicBoundaries limit nxt mil l1]
    axis_step_Largest_result[OF assms, of PeriodicBoundaries limit nxt mil l2]
  show ?thesis by (auto simp add: len axes_loop_def and_then_def)
qed

lemma fill_cells_periodic_222:
  "fill_cells PeriodicBoundaries ndebug mal ps dt incl ((2, 2, 2), f) = Inr g \<Longrightarrow>
     number_of_cells g = (2, 2, 2)"
  "fill_cells PeriodicBoundaries ndebug mal ps dt incl ((2, 2, 2), f) \<noteq> Inl Length_Error"
  "fill_cells PeriodicBoundaries ndebug mal ps dt incl ((2, 2, 2), f) \<noteq> Inl Overflow_Error"
  "fill_cells PeriodicBoundaries ndebug mal ps dt incl ((2, 2, 2), f) \<noteq> Inl Box_Too_Small"
  by (auto simp add: fill_cells_def resize_cells_def int_range_def INT_MIN_def INT_MAX_def
      split: prod.splits sum.splits dest: place_particles_errors)


text \<open>
  Claim C10, as amended. Construction with the largest strategy never raises the overflow
  error, the error for a box that is too small, or a length error. Without periodic
  boundaries it returns, for every input, the single cell that holds all particles. With
  periodic boundaries every grid it returns has two cells on every axis, and it returns a
  grid whenever the interaction length is positive and every particle lies inside the
  box, also when the box is smaller than twice the interaction length. (With periodic
  boundaries a particle outside of the box can still fail the bounds check of lines
  268-281.)
\<close>

theorem largest_strategy_errors:
  "construct Normal ndebug nextafter_zero min_and_length particles max_interaction_length
     timestep_duration limit include_unformed_particles Largest
   = Some (Inr (single_cell (snd min_and_length) particles))
   \<and> construct PeriodicBoundaries ndebug nextafter_zero min_and_length particles
       max_interaction_length timestep_duration limit include_unformed_particles Largest
     \<notin> {Some (Inl Overflow_Error), Some (Inl Box_Too_Small), Some (Inl Length_Error)}
   \<and> (\<forall>g. construct PeriodicBoundaries ndebug nextafter_zero min_and_length particles
             max_interaction_length timestep_duration limit include_unformed_particles Largest
           = Some (Inr g) \<longrightarrow> number_of_cells g = (2, 2, 2))
   \<and> (towards_zero nextafter_zero \<and> 0 < max_interaction_length \<and>
       (\<forall>p\<in>set particles. inside_box min_and_length p) \<longrightarrow>
       (\<exists>g. construct PeriodicBoundaries ndebug nextafter_zero min_and_length particles
             max_interaction_length timestep_duration limit include_unformed_particles Largest
           = Some (Inr g)))"
proof (intro conjI allI impI)
  show "construct Normal ndebug nextafter_zero min_and_length particles max_interaction_length
     timestep_duration limit include_unformed_particles Largest
   = Some (Inr (single_cell (snd min_and_length) particles))"
    by (simp add: construct_def copy_to_vector_def)
next
  define mc where "mc = max_cells_of PeriodicBoundaries (int (length particles))"
  have mc: "2 \<le> mc" by (simp add: mc_def max_cells_of_periodic)
  note ax = axes_loop_Largest_periodic[OF mc, of limit nextafter_zero max_interaction_length
      "snd min_and_length"]
  show "construct PeriodicBoundaries ndebug nextafter_zero min_and_length particles
       max_interaction_length timestep_duration limit include_unformed_particles Largest
     \<notin> {Some (Inl Overflow_Error), Some (Inl Box_Too_Small), Some (Inl Length_Error)}"
    using ax fill_cells_periodic_222(2-4)[of ndebug min_and_length particles timestep_duration
        include_unformed_particles]
    by (auto simp add: construct_def and_then_def mc_def)
  {
    fix g
    assume "construct PeriodicBoundaries ndebug nextafter_zero min_and_length particles
             max_interaction_length timestep_duration limit include_unformed_particles Largest
           = Some (Inr g)"
    then show "number_of_cells g = (2, 2, 2)"
      using ax fill_cells_periodic_222(1)[of ndebug min_and_length particles timestep_duration
        include_unformed_particles _ g]
      by (auto simp add: construct_def and_then_def mc_def)
  }
  assume h: "towards_zero nextafter_zero \<and> 0 < max_interaction_length \<and>
       (\<forall>p\<in>set particles. inside_box min_and_length p)"
  obtain m0 m1 m2 l0 l1 l2 where mal: "min_and_length = ((m0, m1, m2), (l0, l1, l2))"
    by (cases min_and_length) auto
  from h have tz: "towards_zero nextafter_zero" and pos: "0 < max_interaction_length"
    and box: "\<And>p. p \<in> set particles \<Longrightarrow> inside_box ((m0, m1, m2), (l0, l1, l2)) p"
    by (simp_all add: mal)
  from axis_step_Largest[OF tz pos mc, of PeriodicBoundaries limit l0] obtain f0 where
    f0: "axis_step PeriodicBoundaries Largest limit nextafter_zero mc max_interaction_length l0
         = Some (Inr (2, f0))" "0 \<le> f0" "l0 * f0 < 2" by blast
  from axis_step_Largest[OF tz pos mc, of PeriodicBoundaries limit l1] obtain f1 where
    f1: "axis_step PeriodicBoundaries Largest limit nextafter_zero mc max_interaction_length l1
         = Some (Inr (2, f1))" "0 \<le> f1" "l1 * f1 < 2" by blast
  from axis_step_Largest[OF tz pos mc, of PeriodicBoundaries limit l2] obtain f2 where
    f2: "axis_step PeriodicBoundaries Largest limit nextafter_zero mc max_interaction_length l2
         = Some (Inr (2, f2))" "0 \<le> f2" "l2 * f2 < 2" by blast
  have axes: "axes_loop PeriodicBoundaries Largest limit nextafter_zero mc max_interaction_length
        (l0, l1, l2) = Some (Inr ((2, 2, 2), (f0, f1, f2)))"
    using f0(1) f1(1) f2(1) by (simp add: axes_loop_def and_then_def)
  have idx: "\<forall>p\<in>set particles. \<exists>i. cell_index_for (2, 2, 2) (m0, m1, m2) (f0, f1, f2) p = Inr i \<and>
        0 \<le> i \<and> i < int (length (replicate 8 ([]::ParticleList)))"
  proof
    fix p assume "p \<in> set particles"
    from cell_index_for_in_range[OF box[OF this] f0(2) _ f1(2) _ f2(2), of 2 2 2]
    show "\<exists>i. cell_index_for (2, 2, 2) (m0, m1, m2) (f0, f1, f2) p = Inr i \<and>
        0 \<le> i \<and> i < int (length (replicate 8 ([]::ParticleList)))"
      using f0(3) f1(3) f2(3) by (simp add: INT_MAX_def)
  qed
  from place_particles_ok[OF idx, of ndebug timestep_duration include_unformed_particles]
  obtain cs where "place_particles ndebug (2, 2, 2) (m0, m1, m2) (f0, f1, f2) timestep_duration
      include_unformed_particles particles (replicate 8 []) = Inr cs" by blast
  then show "\<exists>g. construct PeriodicBoundaries ndebug nextafter_zero min_and_length particles
             max_interaction_length timestep_duration limit include_unformed_particles Largest
           = Some (Inr g)"
    using axes
    by (simp add: construct_def and_then_def mc_def[symmetric] mal fill_cells_def
        resize_cells_def int_range_def INT_MIN_def INT_MAX_def)
qed

text \<open>The claim as stated, "never raises any error", fails with periodic boundaries for
  a particle outside of the box: the bounds check throws.\<close>

theorem largest_strategy_errors_counterexample:
  "construct PeriodicBoundaries False one_ulp_towards_zero ((0, 0, 0), (1, 1, 1))
     [formed_particle 1 9 0 0] 1 0 None_Limitation True Largest = Some (Inl Out_Of_Bounds)"
proof -
  have a: "axis_step PeriodicBoundaries Largest None_Limitation one_ulp_towards_zero
             (max_cells_of PeriodicBoundaries 1) 1 1
           = Some (Inr (2, one_ulp_towards_zero (real_of_int 2 / 1)))"
    by (rule axis_step_nudged)
       (simp_all add: axis_cells_def check_cells_def one_ulp_towards_zero_def)
  show ?thesis
    by (simp add: construct_def axes_loop_def and_then_def a fill_cells_def resize_cells_def
        int_range_def INT_MIN_def INT_MAX_def cell_index_for_def floor_to_int_def
        make_index_int_def make_index_def formed_particle_def x1_def x2_def x3_def
        one_ulp_towards_zero_def)
qed

theorem largest_strategy_errors_witness:
  "\<exists>g. construct PeriodicBoundaries False one_ulp_towards_zero ((0, 0, 0), (1, 1, 1))
         [formed_particle 1 (1 / 2) (1 / 2) (1 / 2)] 1 0 None_Limitation False Largest
       = Some (Inr g) \<and> number_of_cells g = (2, 2, 2)"
proof -
  have h: "towards_zero one_ulp_towards_zero \<and> (0::real) < 1 \<and>
      (\<forall>p\<in>set [formed_particle 1 (1 / 2) (1 / 2) (1 / 2)]. inside_box ((0, 0, 0), (1, 1, 1)) p)"
    by (simp add: towards_zero_one_ulp inside_box_def formed_particle_def x1_def x2_def x3_def)
  from largest_strategy_errors[where ndebug = False and nextafter_zero = one_ulp_towards_zero
      and min_and_length = "((0, 0, 0), (1, 1, 1))"
      and particles = "[formed_particle 1 (1 / 2) (1 / 2) (1 / 2)]"
      and max_interaction_length = 1 and timestep_duration = 0 and limit = None_Limitation
      and include_unformed_particles = False] h
  show ?thesis by blast
qed

subsection \<open>The contents of the cells\<close>

lemma mset_concat_append_at:
  "i < length cs \<Longrightarrow> mset (concat (cs[i := cs ! i @ [p]])) = mset (concat cs) + {#p#}"
proof (induction cs arbitrary: i)
  case Nil
  then show ?case by simp
next
  case (Cons c cs)
  then show ?case by (cases i) simp_all
qed

lemma place_particles_mset:
  "place_particles ndebug noc m f dt incl ps cs = Inr cs' \<Longrightarrow>
     mset (concat cs') = mset (concat cs) + mset (filter (eligible incl dt) ps)"
proof (induction ps arbitrary: cs)
  case Nil
  then show ?case by simp
next
  case (Cons p ps)
  show ?case
  proof (cases "eligible incl dt p")
    case False
    then show ?thesis using Cons by (auto simp add: eligible_def not_less)
  next
    case True
    then have k: "\<not> (\<not> incl \<and> xsec_scaling_factor p dt \<le> 0)" by (auto simp add: eligible_def)
    from Cons.prems k obtain i where i: "cell_index_for noc m f p = Inr i" "0 \<le> i"
      "i < int (length cs)"
      and r: "place_particles ndebug noc m f dt incl ps (cs[nat i := cs ! nat i @ [p]]) = Inr cs'"
      by (auto split: sum.splits if_splits)
    have "nat i < length cs" using i by simp
    from Cons.IH[OF r] mset_concat_append_at[OF this, of p] show ?thesis using True by simp
  qed
qed

lemma cells_single_cell: "cells (single_cell len content) = [content]"
  by (cases len) (auto simp add: single_cell_def)

lemma construct_cells_eligible:
  assumes "construct opt ndebug nxt mal ps mil dt limit incl strategy = Some (Inr g)"
    and "\<not> (opt = Normal \<and> strategy = Largest \<and> \<not> incl)"
  shows "mset (concat (cells g)) = mset (filter (eligible incl dt) ps)"
proof (cases "opt = Normal \<and> strategy = Largest")
  case True
  then show ?thesis using assms
    by (auto simp add: construct_def cells_single_cell copy_to_vector_def eligible_def Let_def)
next
  case False
  with assms(1) obtain cf where
    b: "fill_cells opt ndebug mal ps dt incl cf = Inr g"
    by (auto simp add: construct_Some_iff)
  have e: "filter (\<lambda>p. 0 < xsec_scaling_factor p dt) ps = filter (eligible False dt) ps"
    by (rule filter_cong) (simp_all add: eligible_def)
  have t: "\<And>p. eligible True dt p" by (simp add: eligible_def)
  from b show ?thesis
    by (auto simp add: fill_cells_def cells_single_cell copy_to_vector_def e t resize_cells_def
        split: prod.splits if_splits sum.splits dest!: place_particles_mset)
qed

lemma dilute_fallback_equals_largest:
  assumes "axes_loop Normal Optimal limit nxt (max_cells_of Normal (int (length ps))) mil (snd mal)
           = Some (Inr ((n0, n1, n2), f))"
    and "n0 \<le> 2" "n1 \<le> 2" "n2 \<le> 2"
    and "incl \<or> (\<forall>p\<in>set ps. xsec_scaling_factor p dt > 0)"
  shows "construct Normal ndebug nxt mal ps mil dt limit incl Optimal
         = construct Normal ndebug nxt mal ps mil dt limit incl Largest"
proof -
  have "filter (\<lambda>p. 0 < xsec_scaling_factor p dt) ps = ps" if "\<not> incl"
    using assms(5) that by (simp add: filter_id_conv)
  then show ?thesis using assms(1-4)
    by (auto simp add: construct_def and_then_def fill_cells_def copy_to_vector_def Let_def
        split: prod.splits)
qed

text \<open>
  Claim C6 says that with \<open>include_unformed_particles = false\<close> a particle whose scaling
  factor is exactly 0 appears in no cell and in no call of a callback, in both modes and
  for both strategies. The constructor does not do this on the path of lines 126-133
  (no periodic boundaries, largest strategy): evaluated on one such particle, the single
  cell holds it and \<open>search_cell_callback\<close> receives it. The other paths filter, see
  \<open>construct_cells_eligible\<close>.
\<close>

theorem largest_normal_keeps_unformed_particle:
  "xsec_scaling_factor (unformed_particle 1 0 0 0) 0 = 0 \<and>
   (\<exists>g. construct Normal False one_ulp_towards_zero ((0, 0, 0), (1, 1, 1))
           [unformed_particle 1 0 0 0] 1 0 None_Limitation False Largest = Some (Inr g) \<and>
        cells g = [[unformed_particle 1 0 0 0]] \<and>
        iterate_cells_normal g = [Search_Cell 0 [unformed_particle 1 0 0 0]])"
  by (simp add: xsec_scaling_factor_def unformed_particle_def x0_def construct_def
      copy_to_vector_def single_cell_def iterate_cells_normal_def search_cell_normal_def
      ZERO_def make_index_def Let_def)

text \<open>
  Claim C2 says that the cells together hold exactly the eligible particles, under all
  options. On the path of lines 126-133 the single cell holds every particle: evaluated
  on a formed and an unformed particle with \<open>include_unformed_particles = false\<close>, the
  contents of the cells are both particles and the eligible particles are the first one
  only. On every other path the claim holds, see \<open>construct_cells_eligible\<close>.
\<close>

theorem largest_normal_cells_not_eligible_set:
  "\<exists>g. construct Normal False one_ulp_towards_zero ((0, 0, 0), (1, 1, 1))
          [formed_particle 1 0 0 0, unformed_particle 2 1 1 1] 1 0 None_Limitation False Largest
        = Some (Inr g) \<and>
       concat (cells g) = [formed_particle 1 0 0 0, unformed_particle 2 1 1 1] \<and>
       filter (eligible False 0) [formed_particle 1 0 0 0, unformed_particle 2 1 1 1]
        = [formed_particle 1 0 0 0] \<and>
       mset (concat (cells g)) \<noteq>
       mset (filter (eligible False 0) [formed_particle 1 0 0 0, unformed_particle 2 1 1 1])"
  by (simp add: eligible_def xsec_scaling_factor_def unformed_particle_def formed_particle_def
      x0_def construct_def copy_to_vector_def single_cell_def Let_def)

text \<open>
  Claim C7 says that without periodic boundaries a configuration with at most two cells
  on every axis gives the same cells as the largest strategy. Evaluated on a formed and an
  unformed particle with \<open>include_unformed_particles = false\<close>: the optimal strategy
  computes one cell per axis and returns the single cell with the formed particle; the
  largest strategy returns the single cell with both. The two agree when unformed
  particles are included or every particle is eligible, see
  \<open>dilute_fallback_equals_largest\<close>.
\<close>

theorem dilute_fallback_differs_from_largest:
  "axes_loop Normal Optimal None_Limitation one_ulp_towards_zero (max_cells_of Normal 2) 2
     (1, 1, 1) = Some (Inr ((1, 1, 1), (1 / 2, 1 / 2, 1 / 2))) \<and>
   construct Normal False one_ulp_towards_zero ((0, 0, 0), (1, 1, 1))
     [formed_particle 1 0 0 0, unformed_particle 2 1 1 1] 2 0 None_Limitation False Optimal
   = Some (Inr (single_cell (1, 1, 1) [formed_particle 1 0 0 0])) \<and>
   construct Normal False one_ulp_towards_zero ((0, 0, 0), (1, 1, 1))
     [formed_particle 1 0 0 0, unformed_particle 2 1 1 1] 2 0 None_Limitation False Largest
   = Some (Inr (single_cell (1, 1, 1) [formed_particle 1 0 0 0, unformed_particle 2 1 1 1])) \<and>
   cells (single_cell (1, 1, 1) [formed_particle 1 0 0 0]) \<noteq>
   cells (single_cell (1, 1, 1) [formed_particle 1 0 0 0, unformed_particle 2 1 1 1])"
proof -
  have a: "axis_step Normal Optimal None_Limitation one_ulp_towards_zero (max_cells_of Normal 2) 2 1
           = Some (Inr (1, 1 / 2))"
    by (rule axis_step_plain)
       (simp_all add: axis_cells_def check_cells_def floor_to_int_def int_range_def
          INT_MIN_def INT_MAX_def)
  show ?thesis
    by (simp add: construct_def axes_loop_def and_then_def a fill_cells_def
        copy_to_vector_def single_cell_def xsec_scaling_factor_def unformed_particle_def
        formed_particle_def x0_def Let_def)
qed

subsection \<open>Enumeration without periodic boundaries\<close>

text \<open>Arithmetic of the flat index.\<close>

lemma pair_less_iff:
  fixes r r' n x x' :: int
  assumes "0 \<le> x" "x < n" "0 \<le> x'" "x' < n"
  shows "r * n + x < r' * n + x' \<longleftrightarrow> r < r' \<or> (r = r' \<and> x < x')"
proof -
  have n: "0 \<le> n" using assms by simp
  have up: "\<And>a b :: int. a < b \<Longrightarrow> a * n + n \<le> b * n"
  proof -
    fix a b :: int assume "a < b"
    then have "(a + 1) * n \<le> b * n" using n by (intro mult_right_mono) auto
    then show "a * n + n \<le> b * n" by (simp add: algebra_simps)
  qed
  consider "r < r'" | "r = r'" | "r' < r" by linarith
  then show ?thesis
  proof cases
    case 1
    from up[OF 1] show ?thesis using 1 assms by simp
  next
    case 2
    then show ?thesis by simp
  next
    case 3
    from up[OF 3] show ?thesis using 3 assms by simp
  qed
qed

lemma make_index_array_less_iff:
  assumes "in_grid (nx, ny, nz) (x, y, z)" "in_grid (nx, ny, nz) (x', y', z')"
  shows "make_index_array (nx, ny, nz) (x, y, z) < make_index_array (nx, ny, nz) (x', y', z')
         \<longleftrightarrow> z < z' \<or> (z = z' \<and> (y < y' \<or> (y = y' \<and> x < x')))"
proof -
  from assms have b: "0 \<le> x" "x < nx" "0 \<le> x'" "x' < nx" "0 \<le> y" "y < ny" "0 \<le> y'" "y' < ny"
    by (simp_all add: in_grid_def)
  have "(z * ny + y) * nx + x < (z' * ny + y') * nx + x'
        \<longleftrightarrow> z * ny + y < z' * ny + y' \<or> (z * ny + y = z' * ny + y' \<and> x < x')"
    by (rule pair_less_iff[OF b(1-4)])
  moreover have lt: "z * ny + y < z' * ny + y' \<longleftrightarrow> z < z' \<or> (z = z' \<and> y < y')"
    by (rule pair_less_iff[OF b(5-8)])
  moreover have "z' * ny + y' < z * ny + y \<longleftrightarrow> z' < z \<or> (z' = z \<and> y' < y)"
    by (rule pair_less_iff[OF b(7,8,5,6)])
  then have "z * ny + y = z' * ny + y' \<longleftrightarrow> z = z' \<and> y = y'" using lt by auto
  ultimately show ?thesis by (auto simp add: make_index_array_def make_index_def)
qed

lemma make_index_array_inj:
  assumes "in_grid noc c" "in_grid noc c'" "make_index_array noc c = make_index_array noc c'"
  shows "c = c'"
proof -
  obtain nx ny nz where noc: "noc = (nx, ny, nz)" by (cases noc) auto
  obtain x y z where c: "c = (x, y, z)" by (cases c) auto
  obtain x' y' z' where c': "c' = (x', y', z')" by (cases c') auto
  from make_index_array_less_iff[OF assms(1,2)[unfolded noc c c']]
    make_index_array_less_iff[OF assms(2,1)[unfolded noc c c']] assms(3)
  show ?thesis unfolding noc c c' by auto
qed

lemma make_index_add:
  "make_index noc (x + dx) (y + dy) (z + dz) = make_index noc x y z + make_index noc dx dy dz"
  by (cases noc) (simp add: make_index_def algebra_simps)


subsection \<open>The loops over the cells\<close>

lemma upto_as_upt: "[0..int n - 1] = map int [0..<n]"
proof (induction n)
  case 0
  then show ?case by simp
next
  case (Suc n)
  have "[0..int (Suc n) - 1] = [0..int n - 1] @ [int n]"
    using upto_rec2[of 0 "int n"] by simp
  then show ?case using Suc by simp
qed

lemma fold_counter_upt:
  "fold (\<lambda>x (out, i). (out @ F x i, i + k)) (map int [0..<n]) (out0, i0)
   = (out0 @ concat (map (\<lambda>x. F x (i0 + k * x)) (map int [0..<n])), i0 + k * int n)"
  by (induction n) (simp_all add: algebra_simps)

lemma fold_counter:
  assumes "0 \<le> n"
  shows "fold (\<lambda>x (out, i). (out @ F x i, i + k)) [0..n - 1]
         = (\<lambda>(out0, i0). (out0 @ concat (map (\<lambda>x. F x (i0 + k * x)) [0..n - 1]), i0 + k * n))"
proof -
  have n: "n = int (nat n)" using assms by simp
  show ?thesis
    apply (rule ext)
    apply (subst (1 2 3) n)
    apply (simp only: upto_as_upt)
    apply (auto simp add: fold_counter_upt)
    done
qed

lemma concat_map_concat_map:
  "concat (map F (concat (map G zs))) = concat (map (\<lambda>z. concat (map F (G z))) zs)"
  by (induction zs) simp_all

lemma iterate_cells_normal_raster:
  assumes "number_of_cells g = (nx, ny, nz)" "0 \<le> nx" "0 \<le> ny" "0 \<le> nz"
  shows "iterate_cells_normal g
         = concat (map (\<lambda>c. search_cell_normal g c (make_index_array (nx, ny, nz) c))
             (raster_cells (nx, ny, nz)))"
proof -
  have x: "\<And>z y. fold (\<lambda>x (out, i). (out @ search_cell_normal g (x, y, z) i, i + 1)) [0..nx - 1]
      = (\<lambda>(out0, i0). (out0 @ concat (map (\<lambda>x. search_cell_normal g (x, y, z) (i0 + x))
            [0..nx - 1]), i0 + nx))"
    using fold_counter[OF assms(2), where k = 1] by simp
  have y: "\<And>z. fold (\<lambda>y (out0, i0). (out0 @ concat (map (\<lambda>x. search_cell_normal g (x, y, z) (i0 + x))
            [0..nx - 1]), i0 + nx)) [0..ny - 1]
      = (\<lambda>(out0, i0). (out0 @ concat (map (\<lambda>y. concat (map (\<lambda>x.
            search_cell_normal g (x, y, z) (i0 + nx * y + x)) [0..nx - 1])) [0..ny - 1]),
            i0 + nx * ny))"
    by (rule fold_counter[OF assms(3)])
  have z: "fold (\<lambda>z (out0, i0). (out0 @ concat (map (\<lambda>y. concat (map (\<lambda>x.
            search_cell_normal g (x, y, z) (i0 + nx * y + x)) [0..nx - 1])) [0..ny - 1]),
            i0 + nx * ny)) [0..nz - 1]
      = (\<lambda>(out0, i0). (out0 @ concat (map (\<lambda>z. concat (map (\<lambda>y. concat (map (\<lambda>x.
            search_cell_normal g (x, y, z) (i0 + nx * ny * z + nx * y + x)) [0..nx - 1]))
            [0..ny - 1])) [0..nz - 1]), i0 + nx * ny * nz))"
    by (rule fold_counter[OF assms(4)])
  have idx: "\<And>x y z. 0 + nx * ny * z + nx * y + x = make_index_array (nx, ny, nz) (x, y, z)"
    by (simp add: make_index_array_def make_index_def algebra_simps)
  have "iterate_cells_normal g
        = concat (map (\<lambda>z. concat (map (\<lambda>y. concat (map (\<lambda>x.
            search_cell_normal g (x, y, z) (make_index_array (nx, ny, nz) (x, y, z))) [0..nx - 1]))
            [0..ny - 1])) [0..nz - 1])"
    unfolding iterate_cells_normal_def assms(1)
    by (simp only: x y z idx prod.case fst_conv append_Nil)
  also have "\<dots> = concat (map (\<lambda>c. search_cell_normal g c (make_index_array (nx, ny, nz) c))
             (raster_cells (nx, ny, nz)))"
    unfolding raster_cells_def by (simp add: concat_map_concat_map comp_def)
  finally show ?thesis .
qed


lemma raster_cells_product:
  "raster_cells (nx, ny, nz)
   = map (\<lambda>(z, y, x). (x, y, z)) (List.product [0..nz - 1] (List.product [0..ny - 1] [0..nx - 1]))"
  by (simp add: raster_cells_def product_concat_map map_concat comp_def)

lemma distinct_raster_cells: "distinct (raster_cells noc)"
proof -
  obtain nx ny nz where noc: "noc = (nx, ny, nz)" by (cases noc) auto
  have "inj (\<lambda>(z :: int, y :: int, x :: int). (x, y, z))" by (auto simp add: inj_on_def)
  then show ?thesis unfolding noc raster_cells_product
    by (simp add: distinct_map distinct_product inj_on_def)
qed

lemma set_raster_cells: "set (raster_cells noc) = {c. in_grid noc c}"
proof -
  obtain nx ny nz where noc: "noc = (nx, ny, nz)" by (cases noc) auto
  show ?thesis unfolding noc raster_cells_product
    by (auto simp add: in_grid_def image_iff)
qed

lemma count_list_concat_map_unique:
  assumes "distinct xs" "\<And>x. x \<in> set xs \<Longrightarrow> x \<noteq> y \<Longrightarrow> v \<notin> set (f x)"
  shows "count_list (concat (map f xs)) v = (if y \<in> set xs then count_list (f y) v else 0)"
  using assms
proof (induction xs)
  case Nil
  then show ?case by simp
next
  case (Cons x xs)
  have ih: "count_list (concat (map f xs)) v = (if y \<in> set xs then count_list (f y) v else 0)"
    using Cons by simp
  show ?case
  proof (cases "x = y")
    case True
    then have "y \<notin> set xs" using Cons.prems(1) by simp
    then show ?thesis using True ih by simp
  next
    case False
    then have "count_list (f x) v = 0" using Cons.prems(2)[of x] by (simp add: count_list_0_iff)
    then show ?thesis using False ih by simp
  qed
qed

lemma count_list_distinct: "distinct xs \<Longrightarrow> count_list xs x = (if x \<in> set xs then 1 else 0)"
  by (induction xs) auto

lemma neighbor_pairs_append: "neighbor_pairs (xs @ ys) = neighbor_pairs xs @ neighbor_pairs ys"
  by (induction xs rule: neighbor_pairs.induct) simp_all

lemma neighbor_pairs_concat: "neighbor_pairs (concat xss) = concat (map neighbor_pairs xss)"
  by (induction xss) (simp_all add: neighbor_pairs_append)


subsection \<open>The neighbors of one search cell, without periodic boundaries\<close>

lemma concat_map_if_singleton:
  "concat (map (\<lambda>(a, b, c). if P a b c then [f a b c] else []) xs)
   = map (\<lambda>(a, b, c). f a b c) (filter (\<lambda>(a, b, c). P a b c) xs)"
  by (induction xs) auto

lemma search_cell_normal_offsets:
  assumes "number_of_cells g = (nx, ny, nz)" "in_grid (nx, ny, nz) (x, y, z)"
  shows "\<exists>D. distinct D \<and>
           set D = {(dz, dy, dx). (dz = 0 \<or> dz = 1) \<and> z + dz < nz \<and>
                      \<bar>dy\<bar> \<le> 1 \<and> 0 \<le> y + dy \<and> y + dy < ny \<and>
                      \<bar>dx\<bar> \<le> 1 \<and> 0 \<le> x + dx \<and> x + dx < nx} \<and>
           neighbor_pairs (search_cell_normal g (x, y, z) i)
           = map (\<lambda>(dz, dy, dx). (i, i + make_index (nx, ny, nz) dx dy dz))
               (filter (\<lambda>(dz, dy, dx). 0 < make_index (nx, ny, nz) dx dy dz) D)"
proof -
  define dzl where "dzl = (if z = nz - 1 then ZERO else ZERO_ONE)"
  define dyl where "dyl = (if ny = 1 then ZERO else if y = 0 then ZERO_ONE
                           else if y = ny - 1 then MINUS_ONE_ZERO else MINUS_ONE_ZERO_ONE)"
  define dxl where "dxl = (if nx = 1 then ZERO else if x = 0 then ZERO_ONE
                           else if x = nx - 1 then MINUS_ONE_ZERO else MINUS_ONE_ZERO_ONE)"
  define D where "D = List.product dzl (List.product dyl dxl)"
  from assms(2) have b: "0 \<le> x" "x < nx" "0 \<le> y" "y < ny" "0 \<le> z" "z < nz"
    by (simp_all add: in_grid_def)
  have dz: "distinct dzl" "set dzl = {d. (d = 0 \<or> d = 1) \<and> z + d < nz}"
    using b(5,6) by (auto simp add: dzl_def ZERO_def ZERO_ONE_def)
  have dy: "distinct dyl" "set dyl = {d. \<bar>d\<bar> \<le> 1 \<and> 0 \<le> y + d \<and> y + d < ny}"
    using b(3,4)
    by (auto simp add: dyl_def ZERO_def ZERO_ONE_def MINUS_ONE_ZERO_def MINUS_ONE_ZERO_ONE_def)
  have dx: "distinct dxl" "set dxl = {d. \<bar>d\<bar> \<le> 1 \<and> 0 \<le> x + d \<and> x + d < nx}"
    using b(1,2)
    by (auto simp add: dxl_def ZERO_def ZERO_ONE_def MINUS_ONE_ZERO_def MINUS_ONE_ZERO_ONE_def)
  have 1: "distinct D" unfolding D_def using dz(1) dy(1) dx(1) by (simp add: distinct_product)
  have 2: "set D = {(dz, dy, dx). (dz = 0 \<or> dz = 1) \<and> z + dz < nz \<and>
                      \<bar>dy\<bar> \<le> 1 \<and> 0 \<le> y + dy \<and> y + dy < ny \<and>
                      \<bar>dx\<bar> \<le> 1 \<and> 0 \<le> x + dx \<and> x + dx < nx}"
    unfolding D_def using dz(2) dy(2) dx(2) by auto
  have "neighbor_pairs (search_cell_normal g (x, y, z) i)
        = concat (map (\<lambda>dz. concat (map (\<lambda>dy. concat (map (\<lambda>dx.
            if 0 < make_index (nx, ny, nz) dx dy dz
            then [(i, i + make_index (nx, ny, nz) dx dy dz)] else []) dxl)) dyl)) dzl)"
    unfolding search_cell_normal_def assms(1)
    by (simp add: Let_def neighbor_pairs_concat comp_def if_distrib[of neighbor_pairs]
        dzl_def[symmetric] dyl_def[symmetric] dxl_def[symmetric] cong: if_cong)
  also have "\<dots> = concat (map (\<lambda>(dz, dy, dx).
            if 0 < make_index (nx, ny, nz) dx dy dz
            then [(i, i + make_index (nx, ny, nz) dx dy dz)] else []) D)"
    unfolding D_def by (simp add: product_concat_map concat_map_concat_map comp_def)
  also have "\<dots> = map (\<lambda>(dz, dy, dx). (i, i + make_index (nx, ny, nz) dx dy dz))
               (filter (\<lambda>(dz, dy, dx). 0 < make_index (nx, ny, nz) dx dy dz) D)"
    by (rule concat_map_if_singleton)
  finally show ?thesis using 1 2 by blast
qed


lemma search_cell_normal_pairs:
  assumes "number_of_cells g = noc" "in_grid noc c"
  shows "distinct (neighbor_pairs (search_cell_normal g c (make_index_array noc c)))"
    and "set (neighbor_pairs (search_cell_normal g c (make_index_array noc c)))
         = {(make_index_array noc c, make_index_array noc c') | c'.
              in_grid noc c' \<and> adjacent c c' \<and> make_index_array noc c < make_index_array noc c'}"
proof -
  obtain nx ny nz where noc: "noc = (nx, ny, nz)" by (cases noc) auto
  obtain x y z where c: "c = (x, y, z)" by (cases c) auto
  define i where "i = make_index_array noc c"
  from assms(2) have b: "0 \<le> x" "x < nx" "0 \<le> y" "y < ny" "0 \<le> z" "z < nz"
    by (simp_all add: in_grid_def noc c)
  from search_cell_normal_offsets[OF assms(1)[unfolded noc] assms(2)[unfolded noc c], of i]
  obtain D where D: "distinct D"
    "set D = {(dz, dy, dx). (dz = 0 \<or> dz = 1) \<and> z + dz < nz \<and>
                      \<bar>dy\<bar> \<le> 1 \<and> 0 \<le> y + dy \<and> y + dy < ny \<and>
                      \<bar>dx\<bar> \<le> 1 \<and> 0 \<le> x + dx \<and> x + dx < nx}"
    "neighbor_pairs (search_cell_normal g (x, y, z) i)
           = map (\<lambda>(dz, dy, dx). (i, i + make_index (nx, ny, nz) dx dy dz))
               (filter (\<lambda>(dz, dy, dx). 0 < make_index (nx, ny, nz) dx dy dz) D)"
    by blast
  have shift: "\<And>dz dy dx. i + make_index (nx, ny, nz) dx dy dz
      = make_index_array (nx, ny, nz) (x + dx, y + dy, z + dz)"
    by (simp add: i_def noc c make_index_array_def make_index_add)
  have ing: "\<And>dz dy dx. (dz, dy, dx) \<in> set D \<Longrightarrow> in_grid (nx, ny, nz) (x + dx, y + dy, z + dz)"
    using b by (auto simp add: D(2) in_grid_def)
  have inj: "inj_on (\<lambda>(dz, dy, dx). (i, i + make_index (nx, ny, nz) dx dy dz)) (set D)"
  proof (rule inj_onI)
    fix d d' assume d: "d \<in> set D" "d' \<in> set D"
      and e: "(case d of (dz, dy, dx) \<Rightarrow> (i, i + make_index (nx, ny, nz) dx dy dz))
             = (case d' of (dz, dy, dx) \<Rightarrow> (i, i + make_index (nx, ny, nz) dx dy dz))"
    obtain dz dy dx where d1: "d = (dz, dy, dx)" by (cases d) auto
    obtain dz' dy' dx' where d2: "d' = (dz', dy', dx')" by (cases d') auto
    from e have "make_index_array (nx, ny, nz) (x + dx, y + dy, z + dz)
                = make_index_array (nx, ny, nz) (x + dx', y + dy', z + dz')"
      by (simp add: d1 d2 shift)
    from make_index_array_inj[OF ing[OF d(1)[unfolded d1]] ing[OF d(2)[unfolded d2]] this]
    show "d = d'" by (simp add: d1 d2)
  qed
  have eq: "neighbor_pairs (search_cell_normal g c (make_index_array noc c))
           = map (\<lambda>(dz, dy, dx). (i, i + make_index (nx, ny, nz) dx dy dz))
               (filter (\<lambda>(dz, dy, dx). 0 < make_index (nx, ny, nz) dx dy dz) D)"
    using D(3) by (simp add: i_def c)
  show "distinct (neighbor_pairs (search_cell_normal g c (make_index_array noc c)))"
    unfolding eq using D(1) inj by (simp add: distinct_map inj_on_def)
  show "set (neighbor_pairs (search_cell_normal g c (make_index_array noc c)))
         = {(make_index_array noc c, make_index_array noc c') | c'.
              in_grid noc c' \<and> adjacent c c' \<and> make_index_array noc c < make_index_array noc c'}"
    (is "?L = ?R")
  proof (rule set_eqI)
    fix p
    show "p \<in> ?L \<longleftrightarrow> p \<in> ?R"
    proof
      assume "p \<in> ?L"
      then obtain dz dy dx where d: "(dz, dy, dx) \<in> set D"
        "0 < make_index (nx, ny, nz) dx dy dz"
        "p = (i, i + make_index (nx, ny, nz) dx dy dz)"
        unfolding eq by auto
      have ne: "(dz, dy, dx) \<noteq> (0, 0, 0)" using d(2) by (auto simp add: make_index_def)
      have "in_grid noc (x + dx, y + dy, z + dz)" using ing[OF d(1)] by (simp add: noc)
      moreover have "adjacent c (x + dx, y + dy, z + dz)"
        using d(1) ne by (auto simp add: adjacent_def c D(2))
      moreover have "i < make_index_array noc (x + dx, y + dy, z + dz)"
        using d(2) shift[of dx dy dz] by (simp add: noc)
      moreover have "p = (make_index_array noc c, make_index_array noc (x + dx, y + dy, z + dz))"
        using d(3) shift[of dx dy dz] by (simp add: noc i_def)
      ultimately show "p \<in> ?R" unfolding i_def by blast
    next
      assume "p \<in> ?R"
      then obtain c' where c': "in_grid noc c'" "adjacent c c'"
        "make_index_array noc c < make_index_array noc c'"
        "p = (make_index_array noc c, make_index_array noc c')" by blast
      obtain x' y' z' where cc: "c' = (x', y', z')" by (cases c') auto
      from c'(1) have b': "0 \<le> x'" "x' < nx" "0 \<le> y'" "y' < ny" "0 \<le> z'" "z' < nz"
        by (simp_all add: in_grid_def noc cc)
      from c'(2) have adj: "\<bar>x' - x\<bar> \<le> 1" "\<bar>y' - y\<bar> \<le> 1" "\<bar>z' - z\<bar> \<le> 1"
        by (simp_all add: adjacent_def c cc)
      from c'(3) make_index_array_less_iff[OF assms(2)[unfolded noc c] c'(1)[unfolded noc cc]]
      have "z \<le> z'" by (auto simp add: noc c cc)
      then have d: "(z' - z, y' - y, x' - x) \<in> set D"
        using adj b' by (auto simp add: D(2))
      have s: "i + make_index (nx, ny, nz) (x' - x) (y' - y) (z' - z) = make_index_array noc c'"
        using shift[of "x' - x" "y' - y" "z' - z"] by (simp add: noc cc)
      then have "0 < make_index (nx, ny, nz) (x' - x) (y' - y) (z' - z)"
        using c'(3) by (simp add: i_def)
      with d s have "(i, make_index_array noc c')
          \<in> (\<lambda>(dz, dy, dx). (i, i + make_index (nx, ny, nz) dx dy dz)) `
              set (filter (\<lambda>(dz, dy, dx). 0 < make_index (nx, ny, nz) dx dy dz) D)"
        by (simp add: image_iff) (metis (no_types))
      then show "p \<in> ?L" unfolding eq c'(4) by (simp add: i_def)
    qed
  qed
qed


subsection \<open>Every pair of adjacent cells exactly once, without periodic boundaries\<close>

lemma length_filter_unordered:
  assumes "a \<noteq> b"
  shows "length (filter (\<lambda>(i, j). (i = a \<and> j = b) \<or> (i = b \<and> j = a)) ps)
         = count_list ps (a, b) + count_list ps (b, a)"
  using assms by (induction ps) auto

lemma pair_calls_count:
  "a \<noteq> b \<Longrightarrow> pair_calls cs a b
     = count_list (neighbor_pairs cs) (a, b) + count_list (neighbor_pairs cs) (b, a)"
  unfolding pair_calls_def by (rule length_filter_unordered)

lemma adjacent_sym: "adjacent c c' \<longleftrightarrow> adjacent c' c"
  by (cases c; cases c') (auto simp add: adjacent_def abs_minus_commute)

lemma neighbor_pairs_iterate_cells_normal:
  assumes "number_of_cells g = noc" "in_grid noc c0"
  shows "neighbor_pairs (iterate_cells_normal g)
         = concat (map (\<lambda>c. neighbor_pairs (search_cell_normal g c (make_index_array noc c)))
             (raster_cells noc))"
proof -
  obtain nx ny nz where noc: "noc = (nx, ny, nz)" by (cases noc) auto
  obtain x y z where c: "c0 = (x, y, z)" by (cases c0) auto
  from assms(2) have "0 \<le> nx" "0 \<le> ny" "0 \<le> nz" by (simp_all add: in_grid_def noc c)
  from iterate_cells_normal_raster[OF assms(1)[unfolded noc] this] show ?thesis
    by (simp add: noc neighbor_pairs_concat comp_def)
qed

lemma count_list_iterate_cells_normal:
  assumes "number_of_cells g = noc" "in_grid noc c" "in_grid noc c'"
  shows "count_list (neighbor_pairs (iterate_cells_normal g))
           (make_index_array noc c, make_index_array noc c')
         = (if adjacent c c' \<and> make_index_array noc c < make_index_array noc c' then 1 else 0)"
proof -
  let ?P = "\<lambda>c. neighbor_pairs (search_cell_normal g c (make_index_array noc c))"
  let ?v = "(make_index_array noc c, make_index_array noc c')"
  have other: "\<And>d. d \<in> set (raster_cells noc) \<Longrightarrow> d \<noteq> c \<Longrightarrow> ?v \<notin> set (?P d)"
  proof
    fix d assume d: "d \<in> set (raster_cells noc)" "d \<noteq> c" and v: "?v \<in> set (?P d)"
    from d(1) have dg: "in_grid noc d" by (simp add: set_raster_cells)
    from v have "make_index_array noc c = make_index_array noc d"
      unfolding search_cell_normal_pairs(2)[OF assms(1) dg] by auto
    from make_index_array_inj[OF assms(2) dg this] d(2) show False by simp
  qed
  have "count_list (neighbor_pairs (iterate_cells_normal g)) ?v
        = (if c \<in> set (raster_cells noc) then count_list (?P c) ?v else 0)"
    unfolding neighbor_pairs_iterate_cells_normal[OF assms(1,2)]
    by (rule count_list_concat_map_unique[where y = c, OF distinct_raster_cells other])
  also have "\<dots> = count_list (?P c) ?v" using assms(2) by (simp add: set_raster_cells)
  also have "\<dots> = (if ?v \<in> set (?P c) then 1 else 0)"
    by (rule count_list_distinct[OF search_cell_normal_pairs(1)[OF assms(1,2)]])
  also have "?v \<in> set (?P c) \<longleftrightarrow> adjacent c c' \<and> make_index_array noc c < make_index_array noc c'"
  proof
    assume "?v \<in> set (?P c)"
    then obtain d where d: "in_grid noc d" "adjacent c d"
      "make_index_array noc c < make_index_array noc d"
      "make_index_array noc c' = make_index_array noc d"
      unfolding search_cell_normal_pairs(2)[OF assms(1,2)] by blast
    from make_index_array_inj[OF assms(3) d(1) d(4)] d(2,3)
    show "adjacent c c' \<and> make_index_array noc c < make_index_array noc c'" by simp
  next
    assume "adjacent c c' \<and> make_index_array noc c < make_index_array noc c'"
    then show "?v \<in> set (?P c)"
      unfolding search_cell_normal_pairs(2)[OF assms(1,2)] using assms(3) by blast
  qed
  finally show ?thesis .
qed

lemma signed_pair_pos_iff:
  fixes r n x :: int
  assumes "\<bar>x\<bar> < n"
  shows "0 < r * n + x \<longleftrightarrow> 0 < r \<or> (r = 0 \<and> 0 < x)"
proof -
  have n: "0 \<le> n" using assms by simp
  consider "1 \<le> r" | "r = 0" | "r \<le> - 1" by linarith
  then show ?thesis
  proof cases
    case 1
    then have "1 * n \<le> r * n" using n by (intro mult_right_mono) auto
    then show ?thesis using 1 assms by simp
  next
    case 2
    then show ?thesis by simp
  next
    case 3
    then have "r * n \<le> (- 1) * n" using n by (intro mult_right_mono) auto
    then show ?thesis using 3 assms by simp
  qed
qed

lemma make_index_pos_iff:
  assumes "\<bar>dx\<bar> < nx" "\<bar>dy\<bar> < ny"
  shows "0 < make_index (nx, ny, nz) dx dy dz
         \<longleftrightarrow> 0 < dz \<or> (dz = 0 \<and> (0 < dy \<or> (dy = 0 \<and> 0 < dx)))"
proof -
  have "0 < (dz * ny + dy) * nx + dx \<longleftrightarrow> 0 < dz * ny + dy \<or> (dz * ny + dy = 0 \<and> 0 < dx)"
    by (rule signed_pair_pos_iff[OF assms(1)])
  moreover have p: "0 < dz * ny + dy \<longleftrightarrow> 0 < dz \<or> (dz = 0 \<and> 0 < dy)"
    by (rule signed_pair_pos_iff[OF assms(2)])
  moreover have "0 < (- dz) * ny + (- dy) \<longleftrightarrow> 0 < - dz \<or> (- dz = 0 \<and> 0 < - dy)"
    by (rule signed_pair_pos_iff) (use assms(2) in simp)
  then have "dz * ny + dy = 0 \<longleftrightarrow> dz = 0 \<and> dy = 0" using p by auto
  ultimately show ?thesis by (auto simp add: make_index_def)
qed

lemma search_cell_normal_interior:
  assumes "number_of_cells g = (nx, ny, nz)"
    and "0 < x" "x + 1 < nx" "0 < y" "y + 1 < ny" "z + 1 < nz"
  shows "length (neighbor_pairs (search_cell_normal g (x, y, z) i)) = 13"
proof -
  have s: "\<And>dx dy dz. \<bar>dx\<bar> \<le> 1 \<Longrightarrow> \<bar>dy\<bar> \<le> 1 \<Longrightarrow>
      0 < make_index (nx, ny, nz) dx dy dz
      \<longleftrightarrow> 0 < dz \<or> (dz = 0 \<and> (0 < dy \<or> (dy = 0 \<and> 0 < dx)))"
    by (rule make_index_pos_iff) (use assms in auto)
  show ?thesis using assms(2-6)
    unfolding search_cell_normal_def assms(1)
    by (simp add: Let_def ZERO_ONE_def MINUS_ONE_ZERO_ONE_def s)
qed

lemma neighbor_pairs_normal_exactly_once:
  assumes "number_of_cells g = noc" and "in_grid noc c" and "in_grid noc c'" and "c \<noteq> c'"
  shows "pair_calls (iterate_cells_normal g) (make_index_array noc c) (make_index_array noc c')
           = (if adjacent c c' then 1 else 0)
         \<and> (\<forall>(i, j)\<in>set (neighbor_pairs (iterate_cells_normal g)).
               i \<noteq> j \<and>
               (\<exists>a b. in_grid noc a \<and> in_grid noc b \<and> adjacent a b \<and>
                      i = make_index_array noc a \<and> j = make_index_array noc b))
         \<and> (case (noc, c) of
               ((nx, ny, nz), (x, y, z)) \<Rightarrow>
                 0 < x \<and> x + 1 < nx \<and> 0 < y \<and> y + 1 < ny \<and> z + 1 < nz \<longrightarrow>
                 length (neighbor_pairs (search_cell_normal g c (make_index_array noc c))) = 13)"
proof (intro conjI)
  have ne: "make_index_array noc c \<noteq> make_index_array noc c'"
    using make_index_array_inj[OF assms(2,3)] assms(4) by blast
  show "pair_calls (iterate_cells_normal g) (make_index_array noc c) (make_index_array noc c')
           = (if adjacent c c' then 1 else 0)"
    unfolding pair_calls_count[OF ne]
      count_list_iterate_cells_normal[OF assms(1,2,3)]
      count_list_iterate_cells_normal[OF assms(1,3,2)]
    using ne adjacent_sym[of c c'] by auto
  show "\<forall>(i, j)\<in>set (neighbor_pairs (iterate_cells_normal g)).
               i \<noteq> j \<and>
               (\<exists>a b. in_grid noc a \<and> in_grid noc b \<and> adjacent a b \<and>
                      i = make_index_array noc a \<and> j = make_index_array noc b)"
  proof (clarify, rule conjI)
    fix i j assume "(i, j) \<in> set (neighbor_pairs (iterate_cells_normal g))"
    then obtain d where d: "in_grid noc d"
      "(i, j) \<in> set (neighbor_pairs (search_cell_normal g d (make_index_array noc d)))"
      unfolding neighbor_pairs_iterate_cells_normal[OF assms(1,2)]
      by (auto simp add: set_raster_cells)
    from d(2) obtain d' where d': "in_grid noc d'" "adjacent d d'"
      "make_index_array noc d < make_index_array noc d'"
      "i = make_index_array noc d" "j = make_index_array noc d'"
      unfolding search_cell_normal_pairs(2)[OF assms(1) d(1)] by auto
    show "i \<noteq> j" using d'(3,4,5) by simp
    show "\<exists>a b. in_grid noc a \<and> in_grid noc b \<and> adjacent a b \<and>
                      i = make_index_array noc a \<and> j = make_index_array noc b"
      using d(1) d' by blast
  qed
  show "case (noc, c) of
               ((nx, ny, nz), (x, y, z)) \<Rightarrow>
                 0 < x \<and> x + 1 < nx \<and> 0 < y \<and> y + 1 < ny \<and> z + 1 < nz \<longrightarrow>
                 length (neighbor_pairs (search_cell_normal g c (make_index_array noc c))) = 13"
    using assms(1) by (auto simp add: search_cell_normal_interior split: prod.splits)
qed

subsection \<open>The lists handed to the callbacks, without periodic boundaries\<close>

lemma from_cells_search_cell_normal:
  "map (from_cells g) (search_cell_normal g c i) = search_cell_normal g c i"
  by (cases "number_of_cells g"; cases c)
     (simp add: search_cell_normal_def Let_def map_concat comp_def if_distrib[of "map (from_cells g)"]
        cong: if_cong)

lemma from_cells_iterate_cells_normal:
  assumes "number_of_cells g = noc" "in_grid noc c0"
  shows "map (from_cells g) (iterate_cells_normal g) = iterate_cells_normal g"
proof -
  obtain nx ny nz where noc: "noc = (nx, ny, nz)" by (cases noc) auto
  obtain x y z where c: "c0 = (x, y, z)" by (cases c0) auto
  from assms(2) have "0 \<le> nx" "0 \<le> ny" "0 \<le> nz" by (simp_all add: in_grid_def noc c)
  from iterate_cells_normal_raster[OF assms(1)[unfolded noc] this] show ?thesis
    by (simp add: map_concat comp_def from_cells_search_cell_normal)
qed

lemma cell_pair_calls_from_cells:
  "map (from_cells g) cs = cs \<Longrightarrow> cell_pair_calls g cs a b = pair_calls cs a b"
proof (induction cs)
  case Nil
  show ?case by (simp add: cell_pair_calls_def pair_calls_def)
next
  case (Cons c cs)
  then have f: "from_cells g c = c" and ih: "cell_pair_calls g cs a b = pair_calls cs a b"
    by simp_all
  show ?case
  proof (cases c)
    case (Search_Cell i s)
    then show ?thesis using ih by (simp add: cell_pair_calls_def pair_calls_def)
  next
    case (Neighbor_Cell i s j n)
    with f have s: "s = cells g ! nat i" "n = cells g ! nat j" by simp_all
    have "(c = Neighbor_Cell a (cells g ! nat a) b (cells g ! nat b) \<or>
           c = Neighbor_Cell b (cells g ! nat b) a (cells g ! nat a))
          \<longleftrightarrow> (i = a \<and> j = b) \<or> (i = b \<and> j = a)"
      unfolding Neighbor_Cell s by blast
    then show ?thesis using ih Neighbor_Cell
      by (simp add: cell_pair_calls_def pair_calls_def)
  qed
qed

lemma one_particle_grid_333:
  "number_of_cells (one_particle_grid (3, 3, 3)) = (3, 3, 3)"
  "cells (one_particle_grid (3, 3, 3)) ! 13 = [formed_particle 13 (3 / 2) (3 / 2) (3 / 2)]"
  "cells (one_particle_grid (3, 3, 3)) ! 26 = [formed_particle 26 (5 / 2) (5 / 2) (5 / 2)]"
  "cells (one_particle_grid (3, 3, 3)) ! 0 = [formed_particle 0 (1 / 2) (1 / 2) (1 / 2)]"
  "cells (one_particle_grid (3, 3, 3)) ! 2 = [formed_particle 2 (5 / 2) (1 / 2) (1 / 2)]"
  by (simp_all add: one_particle_grid_def raster_cells_def upto.simps make_index_def)

text \<open>
  Claim C4. Without periodic boundaries, the offset lists of lines 321-331 together with
  the test \<open>di > 0\<close> make \<open>iterate_cells\<close> pass every pair of distinct adjacent cells
  to \<open>neighbor_cell_callback\<close> exactly once, and a pair of distinct cells that are not
  adjacent never: this holds for the calls that hand over the contents of the two cells
  and for the calls on their flat indices. Every call of the traversal hands over the
  contents of the cells it is made for; every call of \<open>neighbor_cell_callback\<close> is on two
  different, adjacent cells of the grid; and a cell in the interior of the grid is passed
  with exactly 13 neighbors.
\<close>
theorem normal_neighbor_calls_exactly_once:
  assumes "number_of_cells g = noc" and "in_grid noc c" and "in_grid noc c'" and "c \<noteq> c'"
  shows "cell_pair_calls g (iterate_cells_normal g)
           (make_index_array noc c) (make_index_array noc c')
           = (if adjacent c c' then 1 else 0)
         \<and> pair_calls (iterate_cells_normal g) (make_index_array noc c) (make_index_array noc c')
           = (if adjacent c c' then 1 else 0)
         \<and> map (from_cells g) (iterate_cells_normal g) = iterate_cells_normal g
         \<and> (\<forall>(i, j)\<in>set (neighbor_pairs (iterate_cells_normal g)).
               i \<noteq> j \<and>
               (\<exists>a b. in_grid noc a \<and> in_grid noc b \<and> adjacent a b \<and>
                      i = make_index_array noc a \<and> j = make_index_array noc b))
         \<and> (case (noc, c) of
               ((nx, ny, nz), (x, y, z)) \<Rightarrow>
                 0 < x \<and> x + 1 < nx \<and> 0 < y \<and> y + 1 < ny \<and> z + 1 < nz \<longrightarrow>
                 length (neighbor_pairs (search_cell_normal g c (make_index_array noc c))) = 13)"
proof -
  note f = from_cells_iterate_cells_normal[OF assms(1,2)]
  note p = neighbor_pairs_normal_exactly_once[OF assms]
  from p have "pair_calls (iterate_cells_normal g) (make_index_array noc c)
      (make_index_array noc c') = (if adjacent c c' then 1 else 0)" by (rule conjunct1)
  then have "cell_pair_calls g (iterate_cells_normal g)
           (make_index_array noc c) (make_index_array noc c')
           = (if adjacent c c' then 1 else 0)"
    by (simp only: cell_pair_calls_from_cells[OF f])
  moreover note f
  moreover from p have "pair_calls (iterate_cells_normal g) (make_index_array noc c)
      (make_index_array noc c') = (if adjacent c c' then 1 else 0)" by (rule conjunct1)
  moreover from p have "\<forall>(i, j)\<in>set (neighbor_pairs (iterate_cells_normal g)).
               i \<noteq> j \<and>
               (\<exists>a b. in_grid noc a \<and> in_grid noc b \<and> adjacent a b \<and>
                      i = make_index_array noc a \<and> j = make_index_array noc b)"
    by (rule conjunct1[OF conjunct2])
  moreover from p have "case (noc, c) of
               ((nx, ny, nz), (x, y, z)) \<Rightarrow>
                 0 < x \<and> x + 1 < nx \<and> 0 < y \<and> y + 1 < ny \<and> z + 1 < nz \<longrightarrow>
                 length (neighbor_pairs (search_cell_normal g c (make_index_array noc c))) = 13"
    by (rule conjunct2[OF conjunct2])
  ultimately show ?thesis by (intro conjI)
qed

theorem normal_neighbor_calls_exactly_once_witness:
  "cell_pair_calls (one_particle_grid (3, 3, 3))
     (iterate_cells_normal (one_particle_grid (3, 3, 3))) 13 26 = 1 \<and>
   cell_pair_calls (one_particle_grid (3, 3, 3))
     (iterate_cells_normal (one_particle_grid (3, 3, 3))) 0 2 = 0 \<and>
   cells (one_particle_grid (3, 3, 3)) ! 13 = [formed_particle 13 (3 / 2) (3 / 2) (3 / 2)] \<and>
   cells (one_particle_grid (3, 3, 3)) ! 26 = [formed_particle 26 (5 / 2) (5 / 2) (5 / 2)] \<and>
   length (neighbor_pairs (search_cell_normal (one_particle_grid (3, 3, 3)) (1, 1, 1) 13)) = 13"
proof -
  have c: "in_grid (3, 3, 3) (1, 1, 1)" "in_grid (3, 3, 3) (2, 2, 2)"
    "in_grid (3, 3, 3) (0, 0, 0)" "in_grid (3, 3, 3) (2, 0, 0)"
    by (simp_all add: in_grid_def)
  have n: "(1 :: int, 1 :: int, 1 :: int) \<noteq> (2, 2, 2)" "(0 :: int, 0 :: int, 0 :: int) \<noteq> (2, 0, 0)"
    by simp_all
  from normal_neighbor_calls_exactly_once[OF one_particle_grid_333(1) c(1) c(2) n(1)]
    normal_neighbor_calls_exactly_once[OF one_particle_grid_333(1) c(3) c(4) n(2)]
  show ?thesis
    by (simp add: make_index_array_def make_index_def adjacent_def one_particle_grid_333)
qed

subsection \<open>The loops over the neighbors, with periodic boundaries\<close>

lemma dx_step_state:
  assumes "number_of_cells g = (nx, ny, nz)" "virtual_search_index st = (v0, v1, v2)"
  shows "virtual_search_index (dx_step g i dz dy dx st) = (virtual_index nx v0 dx, v1, v2)"
    and "neighbor_pairs (calls (dx_step g i dz dy dx st))
         = neighbor_pairs (calls st) @
           (if make_index (nx, ny, nz) (index dx) (index dy) (index dz)
               \<le> make_index (nx, ny, nz) (virtual_index nx v0 dx) v1 v2
            then [] else [(i, make_index (nx, ny, nz) (index dx) (index dy) (index dz))])"
  using assms
  by (cases "wrap dx"; cases "grid_length g"; cases "wrap_vector st";
      simp add: dx_step_def virtual_index_def Let_def neighbor_pairs_append)+


lemma dy_step_state:
  assumes "number_of_cells g = (nx, ny, nz)" "virtual_search_index st = (x, v1, v2)"
    and "wrap a = No" "wrap b = No"
  shows "virtual_search_index (dy_step g (x, y, z) i [a, b, c] dz dy st)
         = (x, virtual_index ny v1 dy, v2)"
    and "neighbor_pairs (calls (dy_step g (x, y, z) i [a, b, c] dz dy st))
         = neighbor_pairs (calls st) @
           concat (map (\<lambda>dx.
             if make_index (nx, ny, nz) (index dx) (index dy) (index dz)
                \<le> make_index (nx, ny, nz) (virtual_index nx x dx) (virtual_index ny v1 dy) v2
             then [] else [(i, make_index (nx, ny, nz) (index dx) (index dy) (index dz))])
             [a, b, c])"
proof -
  obtain l0 l1 l2 where len: "grid_length g = (l0, l1, l2)" by (cases "grid_length g") auto
  obtain w0 w1 w2 where wv: "wrap_vector st = (w0, w1, w2)" by (cases "wrap_vector st") auto
  define s1 where "s1 =
    (if wrap dy = MinusLength
     then st\<lparr>wrap_vector := (w0, - l1, w2), virtual_search_index := (x, - 1, v2)\<rparr>
     else if wrap dy = PlusLength
     then st\<lparr>wrap_vector := (w0, l1, w2), virtual_search_index := (x, ny, v2)\<rparr>
     else st)"
  have s1: "virtual_search_index s1 = (x, virtual_index ny v1 dy, v2)" "calls s1 = calls st"
    using assms(2) by (cases "wrap dy"; simp add: s1_def virtual_index_def)+
  define s2 where "s2 = dx_step g i dz dy a s1"
  define s3 where "s3 = dx_step g i dz dy b s2"
  define s4 where "s4 = dx_step g i dz dy c s3"
  note p2 = dx_step_state[OF assms(1) s1(1), of i dz dy a, folded s2_def]
  have v2: "virtual_search_index s2 = (x, virtual_index ny v1 dy, v2)"
    using p2(1) assms(3) by (simp add: virtual_index_def)
  note p3 = dx_step_state[OF assms(1) v2, of i dz dy b, folded s3_def]
  have v3: "virtual_search_index s3 = (x, virtual_index ny v1 dy, v2)"
    using p3(1) assms(4) by (simp add: virtual_index_def)
  note p4 = dx_step_state[OF assms(1) v3, of i dz dy c, folded s4_def]
  have e: "dy_step g (x, y, z) i [a, b, c] dz dy st
           = (case (wrap_vector s4, virtual_search_index s4) of
                ((w0, w1, w2), (v0, v1, v2)) \<Rightarrow>
                  s4\<lparr>virtual_search_index := (x, v1, v2), wrap_vector := (0, w1, w2)\<rparr>)"
    unfolding dy_step_def assms(1) len wv assms(2) s4_def s3_def s2_def s1_def
    by (simp add: Let_def case_prod_beta)
  show "virtual_search_index (dy_step g (x, y, z) i [a, b, c] dz dy st)
         = (x, virtual_index ny v1 dy, v2)"
    unfolding e using p4(1) by (cases "wrap_vector s4") simp
  have "calls (dy_step g (x, y, z) i [a, b, c] dz dy st) = calls s4"
    unfolding e using p4(1) by (cases "wrap_vector s4") simp
  then show "neighbor_pairs (calls (dy_step g (x, y, z) i [a, b, c] dz dy st))
         = neighbor_pairs (calls st) @
           concat (map (\<lambda>dx.
             if make_index (nx, ny, nz) (index dx) (index dy) (index dz)
                \<le> make_index (nx, ny, nz) (virtual_index nx x dx) (virtual_index ny v1 dy) v2
             then [] else [(i, make_index (nx, ny, nz) (index dx) (index dy) (index dz))])
             [a, b, c])"
    using p2(2) p3(2) p4(2) s1(2) by simp
qed


lemma dz_step_state:
  assumes "number_of_cells g = (nx, ny, nz)" "virtual_search_index st = (x, y, v2)"
    and "wrap a = No" "wrap b = No" "wrap xa = No" "wrap xb = No" "wrap dz \<noteq> PlusLength"
  shows "virtual_search_index (dz_step g (x, y, z) i [a, b, c] [xa, xb, xc] dz st)
         = (x, y, virtual_index nz v2 dz)"
    and "neighbor_pairs (calls (dz_step g (x, y, z) i [a, b, c] [xa, xb, xc] dz st))
         = neighbor_pairs (calls st) @
           concat (map (\<lambda>dy. concat (map (\<lambda>dx.
             if make_index (nx, ny, nz) (index dx) (index dy) (index dz)
                \<le> make_index (nx, ny, nz) (virtual_index nx x dx) (virtual_index ny y dy)
                     (virtual_index nz v2 dz)
             then [] else [(i, make_index (nx, ny, nz) (index dx) (index dy) (index dz))])
             [xa, xb, xc])) [a, b, c])"
proof -
  obtain l0 l1 l2 where len: "grid_length g = (l0, l1, l2)" by (cases "grid_length g") auto
  obtain w0 w1 w2 where wv: "wrap_vector st = (w0, w1, w2)" by (cases "wrap_vector st") auto
  define s1 where "s1 =
    (if wrap dz = MinusLength
     then st\<lparr>wrap_vector := (w0, w1, - l2), virtual_search_index := (x, y, - 1)\<rparr>
     else st)"
  have s1: "virtual_search_index s1 = (x, y, virtual_index nz v2 dz)" "calls s1 = calls st"
    using assms(2,7) by (cases "wrap dz"; simp add: s1_def virtual_index_def)+
  define s2 where "s2 = dy_step g (x, y, z) i [xa, xb, xc] dz a s1"
  define s3 where "s3 = dy_step g (x, y, z) i [xa, xb, xc] dz b s2"
  define s4 where "s4 = dy_step g (x, y, z) i [xa, xb, xc] dz c s3"
  note p2 = dy_step_state[OF assms(1) s1(1) assms(5,6), of y z i xc dz a, folded s2_def]
  have v2: "virtual_search_index s2 = (x, y, virtual_index nz v2 dz)"
    using p2(1) assms(3) by (simp add: virtual_index_def)
  note p3 = dy_step_state[OF assms(1) v2 assms(5,6), of y z i xc dz b, folded s3_def]
  have v3: "virtual_search_index s3 = (x, y, virtual_index nz v2 dz)"
    using p3(1) assms(4) by (simp add: virtual_index_def)
  note p4 = dy_step_state[OF assms(1) v3 assms(5,6), of y z i xc dz c, folded s4_def]
  have e: "dz_step g (x, y, z) i [a, b, c] [xa, xb, xc] dz st
           = (case (wrap_vector s4, virtual_search_index s4) of
                ((w0, w1, w2), (v0, v1, v2)) \<Rightarrow>
                  s4\<lparr>virtual_search_index := (v0, y, v2), wrap_vector := (w0, 0, w2)\<rparr>)"
    unfolding dz_step_def assms(1) len wv assms(2) s4_def s3_def s2_def s1_def
    by (simp add: Let_def case_prod_beta)
  show "virtual_search_index (dz_step g (x, y, z) i [a, b, c] [xa, xb, xc] dz st)
         = (x, y, virtual_index nz v2 dz)"
    unfolding e using p4(1) by (cases "wrap_vector s4") simp
  have "calls (dz_step g (x, y, z) i [a, b, c] [xa, xb, xc] dz st) = calls s4"
    unfolding e using p4(1) by (cases "wrap_vector s4") simp
  moreover have "virtual_index ny y a = y" "virtual_index ny y b = y"
    using assms(3,4) by (simp_all add: virtual_index_def)
  ultimately show "neighbor_pairs (calls (dz_step g (x, y, z) i [a, b, c] [xa, xb, xc] dz st))
         = neighbor_pairs (calls st) @
           concat (map (\<lambda>dy. concat (map (\<lambda>dx.
             if make_index (nx, ny, nz) (index dx) (index dy) (index dz)
                \<le> make_index (nx, ny, nz) (virtual_index nx x dx) (virtual_index ny y dy)
                     (virtual_index nz v2 dz)
             then [] else [(i, make_index (nx, ny, nz) (index dx) (index dy) (index dz))])
             [xa, xb, xc])) [a, b, c])"
    using p2(2) p3(2) p4(2) s1(2) by simp
qed

lemma search_cell_periodic_pairs:
  assumes "number_of_cells g = (nx, ny, nz)"
    and "wrap za = No" "wrap zb \<noteq> PlusLength"
    and "wrap ya = No" "wrap yb = No" "wrap xa = No" "wrap xb = No"
  shows "neighbor_pairs (search_cell_periodic g (x, y, z) i [za, zb] [ya, yb, yc] [xa, xb, xc] out)
         = neighbor_pairs out @
           lookup_pairs (nx, ny, nz) (x, y, z) i [za, zb] [ya, yb, yc] [xa, xb, xc]"
proof -
  define s0 where "s0 = \<lparr>virtual_search_index = (x, y, z), wrap_vector = (0, 0, 0),
      current_wrap_vector = (0, 0, 0), search = cells g ! nat i,
      calls = out @ [Search_Cell i (cells g ! nat i)]\<rparr>"
  have v0: "virtual_search_index s0 = (x, y, z)" by (simp add: s0_def)
  have c0: "neighbor_pairs (calls s0) = neighbor_pairs out"
    by (simp add: s0_def neighbor_pairs_append)
  have zn: "wrap za \<noteq> PlusLength" using assms(2) by simp
  define s1 where "s1 = dz_step g (x, y, z) i [ya, yb, yc] [xa, xb, xc] za s0"
  note p1 = dz_step_state[OF assms(1) v0 assms(4,5,6,7) zn, of z i yc xc, folded s1_def]
  have v1: "virtual_search_index s1 = (x, y, z)"
    using p1(1) assms(2) by (simp add: virtual_index_def)
  note p2 = dz_step_state[OF assms(1) v1 assms(4,5,6,7) assms(3), of z i yc xc]
  have "search_cell_periodic g (x, y, z) i [za, zb] [ya, yb, yc] [xa, xb, xc] out
        = calls (dz_step g (x, y, z) i [ya, yb, yc] [xa, xb, xc] zb s1)"
    by (simp add: search_cell_periodic_def s1_def s0_def Let_def)
  then show ?thesis using p1(2) p2(2) c0 by (simp add: lookup_pairs_def)
qed

subsection \<open>The lists handed to the callbacks, with periodic boundaries\<close>

lemma prepend_calls_simps:
  "virtual_search_index (prepend_calls out st) = virtual_search_index st"
  "wrap_vector (prepend_calls out st) = wrap_vector st"
  "current_wrap_vector (prepend_calls out st) = current_wrap_vector st"
  "search (prepend_calls out st) = search st"
  "calls (prepend_calls out st) = out @ calls st"
  by (simp_all add: prepend_calls_def)

lemma prepend_calls_update:
  "(prepend_calls out st)\<lparr>wrap_vector := w, virtual_search_index := v\<rparr>
   = prepend_calls out (st\<lparr>wrap_vector := w, virtual_search_index := v\<rparr>)"
  "(prepend_calls out st)\<lparr>virtual_search_index := v, wrap_vector := w\<rparr>
   = prepend_calls out (st\<lparr>virtual_search_index := v, wrap_vector := w\<rparr>)"
  by (simp_all add: prepend_calls_def)

lemma dx_step_prepend:
  "dx_step g i dz dy dx (prepend_calls out st) = prepend_calls out (dx_step g i dz dy dx st)"
  by (cases "number_of_cells g"; cases "grid_length g"; cases "wrap_vector st";
      cases "virtual_search_index st")
     (simp add: dx_step_def prepend_calls_def Let_def)

lemma fold_prepend:
  assumes "\<And>x st. f x (prepend_calls out st) = prepend_calls out (f x st)"
  shows "fold f xs (prepend_calls out st) = prepend_calls out (fold f xs st)"
  by (induction xs arbitrary: st) (simp_all add: assms)

lemma dy_step_prepend:
  "dy_step g si i xs dz dy (prepend_calls out st) = prepend_calls out (dy_step g si i xs dz dy st)"
proof -
  note f = fold_prepend[where f = "dx_step g i dz dy", OF dx_step_prepend]
  show ?thesis
    by (simp add: dy_step_def Let_def f prepend_calls_simps prepend_calls_update case_prod_beta)
qed

lemma dz_step_prepend:
  "dz_step g si i ys xs dz (prepend_calls out st) = prepend_calls out (dz_step g si i ys xs dz st)"
proof -
  note f = fold_prepend[where f = "dy_step g si i xs dz", OF dy_step_prepend]
  show ?thesis
    by (simp add: dz_step_def Let_def f prepend_calls_simps prepend_calls_update case_prod_beta)
qed

lemma search_cell_periodic_append:
  "search_cell_periodic g si i zs ys xs out = out @ search_calls g si i zs ys xs"
proof -
  note f = fold_prepend[where f = "dz_step g si i ys xs", OF dz_step_prepend]
  have "\<lparr>virtual_search_index = si, wrap_vector = (0, 0, 0), current_wrap_vector = (0, 0, 0),
          search = cells g ! nat i, calls = out @ [Search_Cell i (cells g ! nat i)]\<rparr>
        = prepend_calls out
            \<lparr>virtual_search_index = si, wrap_vector = (0, 0, 0), current_wrap_vector = (0, 0, 0),
             search = cells g ! nat i, calls = [] @ [Search_Cell i (cells g ! nat i)]\<rparr>"
    by (simp add: prepend_calls_def)
  then show ?thesis
    unfolding search_calls_def search_cell_periodic_def Let_def
    by (simp only: f prepend_calls_simps)
qed

lemma dx_step_calls:
  assumes "number_of_cells g = (nx, ny, nz)" "grid_length g = (l0, l1, l2)"
    and "virtual_search_index st = (v0, v1, v2)" "wrap_vector st = (0, w1, w2)"
    and "search_state g i E st"
  shows "virtual_search_index (dx_step g i dz dy dx st) = (virtual_index nx v0 dx, v1, v2)"
    and "wrap_vector (dx_step g i dz dy dx st) = (wrap_length l0 dx, w1, w2)"
    and "search_state g i
           (E @ (if make_index (nx, ny, nz) (index dx) (index dy) (index dz)
                    \<le> make_index (nx, ny, nz) (virtual_index nx v0 dx) v1 v2
                 then []
                 else [Neighbor_Shape i (wrap_length l0 dx, w1, w2)
                         (make_index (nx, ny, nz) (index dx) (index dy) (index dz))]))
           (dx_step g i dz dy dx st)"
proof -
  from assms(5) have t: "translated_by (cells g ! nat i) (current_wrap_vector st) (search st)"
    and c: "list_all2 (handed_over g) E (calls st)" by (simp_all add: search_state_def)
  show "virtual_search_index (dx_step g i dz dy dx st) = (virtual_index nx v0 dx, v1, v2)"
    using assms(1-4)
    by (cases "wrap dx") (simp_all add: dx_step_def virtual_index_def Let_def)
  show "wrap_vector (dx_step g i dz dy dx st) = (wrap_length l0 dx, w1, w2)"
    using assms(1-4)
    by (cases "wrap dx") (simp_all add: dx_step_def wrap_length_def Let_def)
  define w where "w = (wrap_length l0 dx, w1, w2)"
  have t': "translated_by (cells g ! nat i) w
              (map (translated (vec_minus w (current_wrap_vector st))) (search st))"
    using t by (rule translated_by_shift)
  show "search_state g i
           (E @ (if make_index (nx, ny, nz) (index dx) (index dy) (index dz)
                    \<le> make_index (nx, ny, nz) (virtual_index nx v0 dx) v1 v2
                 then []
                 else [Neighbor_Shape i (wrap_length l0 dx, w1, w2)
                         (make_index (nx, ny, nz) (index dx) (index dy) (index dz))]))
           (dx_step g i dz dy dx st)"
    using assms(1-4) t t' c unfolding w_def[symmetric]
    by (cases "wrap dx")
       (auto simp add: dx_step_def virtual_index_def wrap_length_def Let_def search_state_def
          handed_over_def w_def intro!: list_all2_appendI)
qed


lemma search_state_update:
  "search_state g i E (st\<lparr>wrap_vector := w, virtual_search_index := v\<rparr>) = search_state g i E st"
  "search_state g i E (st\<lparr>virtual_search_index := v, wrap_vector := w\<rparr>) = search_state g i E st"
  by (simp_all add: search_state_def)

lemma wrap_length_No: "wrap e = No \<Longrightarrow> wrap_length len e = 0"
  by (simp add: wrap_length_def)

lemma virtual_index_No: "wrap e = No \<Longrightarrow> virtual_index n c e = c"
  by (simp add: virtual_index_def)

lemma dy_step_calls:
  assumes "number_of_cells g = (nx, ny, nz)" "grid_length g = (l0, l1, l2)"
    and "virtual_search_index st = (x, v1, v2)" "wrap_vector st = (0, 0, w2)"
    and "wrap a = No" "wrap b = No"
    and "search_state g i E st"
  shows "virtual_search_index (dy_step g (x, y, z) i [a, b, c] dz dy st)
         = (x, virtual_index ny v1 dy, v2)"
    and "wrap_vector (dy_step g (x, y, z) i [a, b, c] dz dy st) = (0, wrap_length l1 dy, w2)"
    and "search_state g i
           (E @ concat (map (\<lambda>dx.
              if make_index (nx, ny, nz) (index dx) (index dy) (index dz)
                 \<le> make_index (nx, ny, nz) (virtual_index nx x dx) (virtual_index ny v1 dy) v2
              then []
              else [Neighbor_Shape i (wrap_length l0 dx, wrap_length l1 dy, w2)
                      (make_index (nx, ny, nz) (index dx) (index dy) (index dz))]) [a, b, c]))
           (dy_step g (x, y, z) i [a, b, c] dz dy st)"
proof -
  define s1 where "s1 =
    (if wrap dy = MinusLength
     then st\<lparr>wrap_vector := (0, - l1, w2), virtual_search_index := (x, - 1, v2)\<rparr>
     else if wrap dy = PlusLength
     then st\<lparr>wrap_vector := (0, l1, w2), virtual_search_index := (x, ny, v2)\<rparr>
     else st)"
  have s1: "virtual_search_index s1 = (x, virtual_index ny v1 dy, v2)"
    "wrap_vector s1 = (0, wrap_length l1 dy, w2)" "search_state g i E s1"
    using assms(3,4,7)
    by (cases "wrap dy"; simp add: s1_def virtual_index_def wrap_length_def search_state_update)+
  define s2 where "s2 = dx_step g i dz dy a s1"
  define s3 where "s3 = dx_step g i dz dy b s2"
  define s4 where "s4 = dx_step g i dz dy c s3"
  note p2 = dx_step_calls[OF assms(1,2) s1, where dz = dz and dy = dy and dx = a, folded s2_def,
      unfolded wrap_length_No[OF assms(5)] virtual_index_No[OF assms(5)]]
  note p3 = dx_step_calls[OF assms(1,2) p2, where dz = dz and dy = dy and dx = b, folded s3_def,
      unfolded wrap_length_No[OF assms(6)] virtual_index_No[OF assms(6)]]
  note p4 = dx_step_calls[OF assms(1,2) p3, where dz = dz and dy = dy and dx = c, folded s4_def]
  have e: "dy_step g (x, y, z) i [a, b, c] dz dy st
           = (case (wrap_vector s4, virtual_search_index s4) of
                ((w0, w1, w2), (v0, v1, v2)) \<Rightarrow>
                  s4\<lparr>virtual_search_index := (x, v1, v2), wrap_vector := (0, w1, w2)\<rparr>)"
    unfolding dy_step_def assms(1,2,3,4) s4_def s3_def s2_def s1_def
    by (simp add: Let_def case_prod_beta)
  show "virtual_search_index (dy_step g (x, y, z) i [a, b, c] dz dy st)
         = (x, virtual_index ny v1 dy, v2)"
    unfolding e by (simp add: p4)
  show "wrap_vector (dy_step g (x, y, z) i [a, b, c] dz dy st) = (0, wrap_length l1 dy, w2)"
    unfolding e by (simp add: p4)
  have eq: "E @ concat (map (\<lambda>dx.
              if make_index (nx, ny, nz) (index dx) (index dy) (index dz)
                 \<le> make_index (nx, ny, nz) (virtual_index nx x dx) (virtual_index ny v1 dy) v2
              then []
              else [Neighbor_Shape i (wrap_length l0 dx, wrap_length l1 dy, w2)
                      (make_index (nx, ny, nz) (index dx) (index dy) (index dz))]) [a, b, c])
        = ((E @ (if make_index (nx, ny, nz) (index a) (index dy) (index dz)
                    \<le> make_index (nx, ny, nz) x (virtual_index ny v1 dy) v2
                 then []
                 else [Neighbor_Shape i (0, wrap_length l1 dy, w2)
                         (make_index (nx, ny, nz) (index a) (index dy) (index dz))])) @
               (if make_index (nx, ny, nz) (index b) (index dy) (index dz)
                    \<le> make_index (nx, ny, nz) x (virtual_index ny v1 dy) v2
                 then []
                 else [Neighbor_Shape i (0, wrap_length l1 dy, w2)
                         (make_index (nx, ny, nz) (index b) (index dy) (index dz))])) @
               (if make_index (nx, ny, nz) (index c) (index dy) (index dz)
                    \<le> make_index (nx, ny, nz) (virtual_index nx x c) (virtual_index ny v1 dy) v2
                 then []
                 else [Neighbor_Shape i (wrap_length l0 c, wrap_length l1 dy, w2)
                         (make_index (nx, ny, nz) (index c) (index dy) (index dz))])"
    by (simp add: wrap_length_No[OF assms(5)] virtual_index_No[OF assms(5)]
        wrap_length_No[OF assms(6)] virtual_index_No[OF assms(6)])
  have s4: "search_state g i (E @ concat (map (\<lambda>dx.
              if make_index (nx, ny, nz) (index dx) (index dy) (index dz)
                 \<le> make_index (nx, ny, nz) (virtual_index nx x dx) (virtual_index ny v1 dy) v2
              then []
              else [Neighbor_Shape i (wrap_length l0 dx, wrap_length l1 dy, w2)
                      (make_index (nx, ny, nz) (index dx) (index dy) (index dz))]) [a, b, c])) s4"
    unfolding eq by (rule p4(3))
  show "search_state g i
           (E @ concat (map (\<lambda>dx.
              if make_index (nx, ny, nz) (index dx) (index dy) (index dz)
                 \<le> make_index (nx, ny, nz) (virtual_index nx x dx) (virtual_index ny v1 dy) v2
              then []
              else [Neighbor_Shape i (wrap_length l0 dx, wrap_length l1 dy, w2)
                      (make_index (nx, ny, nz) (index dx) (index dy) (index dz))]) [a, b, c]))
           (dy_step g (x, y, z) i [a, b, c] dz dy st)"
    unfolding e using s4 by (simp only: p4 prod.case search_state_update)
qed


lemma dz_step_calls:
  assumes "number_of_cells g = (nx, ny, nz)" "grid_length g = (l0, l1, l2)"
    and "virtual_search_index st = (x, y, v2)" "wrap_vector st = (0, 0, 0)"
    and "wrap a = No" "wrap b = No" "wrap xa = No" "wrap xb = No" "wrap dz \<noteq> PlusLength"
    and "search_state g i E st"
  shows "virtual_search_index (dz_step g (x, y, z) i [a, b, c] [xa, xb, xc] dz st)
         = (x, y, virtual_index nz v2 dz)"
    and "wrap_vector (dz_step g (x, y, z) i [a, b, c] [xa, xb, xc] dz st)
         = (0, 0, wrap_length l2 dz)"
    and "search_state g i (E @ concat (map (\<lambda>dy. concat (map (\<lambda>dx.
              if make_index (nx, ny, nz) (index dx) (index dy) (index dz)
                 \<le> make_index (nx, ny, nz) (virtual_index nx x dx) (virtual_index ny y dy)
                      (virtual_index nz v2 dz)
              then []
              else [Neighbor_Shape i (wrap_length l0 dx, wrap_length l1 dy, wrap_length l2 dz)
                      (make_index (nx, ny, nz) (index dx) (index dy) (index dz))]) [xa, xb, xc])) [a, b, c]))
           (dz_step g (x, y, z) i [a, b, c] [xa, xb, xc] dz st)"
proof -
  define s1 where "s1 =
    (if wrap dz = MinusLength
     then st\<lparr>wrap_vector := (0, 0, - l2), virtual_search_index := (x, y, - 1)\<rparr>
     else st)"
  have s1: "virtual_search_index s1 = (x, y, virtual_index nz v2 dz)"
    "wrap_vector s1 = (0, 0, wrap_length l2 dz)" "search_state g i E s1"
    using assms(3,4,9,10)
    by (cases "wrap dz"; simp add: s1_def virtual_index_def wrap_length_def search_state_update)+
  define s2 where "s2 = dy_step g (x, y, z) i [xa, xb, xc] dz a s1"
  define s3 where "s3 = dy_step g (x, y, z) i [xa, xb, xc] dz b s2"
  define s4 where "s4 = dy_step g (x, y, z) i [xa, xb, xc] dz c s3"
  note p2 = dy_step_calls[OF assms(1,2) s1(1,2) assms(7,8) s1(3),
      where y = y and z = z and c = xc and dz = dz and dy = a, folded s2_def,
      unfolded wrap_length_No[OF assms(5)] virtual_index_No[OF assms(5)]]
  note p3 = dy_step_calls[OF assms(1,2) p2(1,2) assms(7,8) p2(3),
      where y = y and z = z and c = xc and dz = dz and dy = b, folded s3_def,
      unfolded wrap_length_No[OF assms(6)] virtual_index_No[OF assms(6)]]
  note p4 = dy_step_calls[OF assms(1,2) p3(1,2) assms(7,8) p3(3),
      where y = y and z = z and c = xc and dz = dz and dy = c, folded s4_def]
  have e: "dz_step g (x, y, z) i [a, b, c] [xa, xb, xc] dz st
           = (case (wrap_vector s4, virtual_search_index s4) of
                ((w0, w1, w2), (v0, v1, v2)) \<Rightarrow>
                  s4\<lparr>virtual_search_index := (v0, y, v2), wrap_vector := (w0, 0, w2)\<rparr>)"
    unfolding dz_step_def assms(1,2,3,4) s4_def s3_def s2_def s1_def
    by (simp add: Let_def case_prod_beta)
  show "virtual_search_index (dz_step g (x, y, z) i [a, b, c] [xa, xb, xc] dz st)
         = (x, y, virtual_index nz v2 dz)"
    unfolding e by (simp add: p4)
  show "wrap_vector (dz_step g (x, y, z) i [a, b, c] [xa, xb, xc] dz st)
         = (0, 0, wrap_length l2 dz)"
    unfolding e by (simp add: p4)
  have eq: "E @ concat (map (\<lambda>dy. concat (map (\<lambda>dx.
              if make_index (nx, ny, nz) (index dx) (index dy) (index dz)
                 \<le> make_index (nx, ny, nz) (virtual_index nx x dx) (virtual_index ny y dy)
                      (virtual_index nz v2 dz)
              then []
              else [Neighbor_Shape i (wrap_length l0 dx, wrap_length l1 dy, wrap_length l2 dz)
                      (make_index (nx, ny, nz) (index dx) (index dy) (index dz))]) [xa, xb, xc])) [a, b, c])
        = ((E @ concat (map (\<lambda>dx.
              if make_index (nx, ny, nz) (index dx) (index a) (index dz)
                 \<le> make_index (nx, ny, nz) (virtual_index nx x dx) y (virtual_index nz v2 dz)
              then []
              else [Neighbor_Shape i (wrap_length l0 dx, 0, wrap_length l2 dz)
                      (make_index (nx, ny, nz) (index dx) (index a) (index dz))]) [xa, xb, xc])) @
            concat (map (\<lambda>dx.
              if make_index (nx, ny, nz) (index dx) (index b) (index dz)
                 \<le> make_index (nx, ny, nz) (virtual_index nx x dx) y (virtual_index nz v2 dz)
              then []
              else [Neighbor_Shape i (wrap_length l0 dx, 0, wrap_length l2 dz)
                      (make_index (nx, ny, nz) (index dx) (index b) (index dz))]) [xa, xb, xc])) @
            concat (map (\<lambda>dx.
              if make_index (nx, ny, nz) (index dx) (index c) (index dz)
                 \<le> make_index (nx, ny, nz) (virtual_index nx x dx) (virtual_index ny y c)
                      (virtual_index nz v2 dz)
              then []
              else [Neighbor_Shape i (wrap_length l0 dx, wrap_length l1 c, wrap_length l2 dz)
                      (make_index (nx, ny, nz) (index dx) (index c) (index dz))]) [xa, xb, xc])"
    by (simp add: wrap_length_No[OF assms(5)] virtual_index_No[OF assms(5)]
        wrap_length_No[OF assms(6)] virtual_index_No[OF assms(6)])
  have s4: "search_state g i (E @ concat (map (\<lambda>dy. concat (map (\<lambda>dx.
              if make_index (nx, ny, nz) (index dx) (index dy) (index dz)
                 \<le> make_index (nx, ny, nz) (virtual_index nx x dx) (virtual_index ny y dy)
                      (virtual_index nz v2 dz)
              then []
              else [Neighbor_Shape i (wrap_length l0 dx, wrap_length l1 dy, wrap_length l2 dz)
                      (make_index (nx, ny, nz) (index dx) (index dy) (index dz))]) [xa, xb, xc])) [a, b, c])) s4"
    unfolding eq by (rule p4(3))
  show "search_state g i (E @ concat (map (\<lambda>dy. concat (map (\<lambda>dx.
              if make_index (nx, ny, nz) (index dx) (index dy) (index dz)
                 \<le> make_index (nx, ny, nz) (virtual_index nx x dx) (virtual_index ny y dy)
                      (virtual_index nz v2 dz)
              then []
              else [Neighbor_Shape i (wrap_length l0 dx, wrap_length l1 dy, wrap_length l2 dz)
                      (make_index (nx, ny, nz) (index dx) (index dy) (index dz))]) [xa, xb, xc])) [a, b, c]))
           (dz_step g (x, y, z) i [a, b, c] [xa, xb, xc] dz st)"
    unfolding e using s4 by (simp only: p4 prod.case search_state_update)
qed


lemma search_calls_shapes:
  assumes "number_of_cells g = (nx, ny, nz)" "grid_length g = (l0, l1, l2)"
    and "wrap za = No" "wrap zb \<noteq> PlusLength"
    and "wrap ya = No" "wrap yb = No" "wrap xa = No" "wrap xb = No"
  shows "list_all2 (handed_over g)
           (Search_Shape i # lookup_shapes g (x, y, z) i [za, zb] [ya, yb, yc] [xa, xb, xc])
           (search_calls g (x, y, z) i [za, zb] [ya, yb, yc] [xa, xb, xc])"
proof -
  define s0 where "s0 = \<lparr>virtual_search_index = (x, y, z), wrap_vector = (0, 0, 0),
      current_wrap_vector = (0, 0, 0), search = cells g ! nat i,
      calls = [] @ [Search_Cell i (cells g ! nat i)]\<rparr>"
  have v0: "virtual_search_index s0 = (x, y, z)" "wrap_vector s0 = (0, 0, 0)"
    by (simp_all add: s0_def)
  have c0: "search_state g i ([] @ [Search_Shape i]) s0"
    by (simp add: s0_def search_state_def handed_over_def translated_by_start)
  have zn: "wrap za \<noteq> PlusLength" using assms(3) by simp
  define s1 where "s1 = dz_step g (x, y, z) i [ya, yb, yc] [xa, xb, xc] za s0"
  note p1 = dz_step_calls[OF assms(1,2) v0 assms(5,6,7,8) zn c0,
      where z = z and c = yc and xc = xc, folded s1_def,
      unfolded wrap_length_No[OF assms(3)] virtual_index_No[OF assms(3)]]
  note p2 = dz_step_calls[OF assms(1,2) p1(1,2) assms(5,6,7,8) assms(4) p1(3),
      where z = z and c = yc and xc = xc]
  have "search_calls g (x, y, z) i [za, zb] [ya, yb, yc] [xa, xb, xc]
        = calls (dz_step g (x, y, z) i [ya, yb, yc] [xa, xb, xc] zb s1)"
    by (simp add: search_calls_def search_cell_periodic_def s1_def s0_def Let_def)
  moreover have "Search_Shape i # lookup_shapes g (x, y, z) i [za, zb] [ya, yb, yc] [xa, xb, xc]
        = (([] @ [Search_Shape i]) @
           concat (map (\<lambda>dy. concat (map (\<lambda>dx.
              if make_index (nx, ny, nz) (index dx) (index dy) (index za)
                 \<le> make_index (nx, ny, nz) (virtual_index nx x dx) (virtual_index ny y dy) z
              then []
              else [Neighbor_Shape i (wrap_length l0 dx, wrap_length l1 dy, 0)
                      (make_index (nx, ny, nz) (index dx) (index dy) (index za))]) [xa, xb, xc]))
             [ya, yb, yc])) @
           concat (map (\<lambda>dy. concat (map (\<lambda>dx.
              if make_index (nx, ny, nz) (index dx) (index dy) (index zb)
                 \<le> make_index (nx, ny, nz) (virtual_index nx x dx) (virtual_index ny y dy)
                      (virtual_index nz z zb)
              then []
              else [Neighbor_Shape i (wrap_length l0 dx, wrap_length l1 dy, wrap_length l2 zb)
                      (make_index (nx, ny, nz) (index dx) (index dy) (index zb))]) [xa, xb, xc]))
             [ya, yb, yc])"
    by (simp add: lookup_shapes_def assms(1,2) wrap_length_No[OF assms(3)]
        virtual_index_No[OF assms(3)])
  ultimately show ?thesis using p2(3) by (simp only: search_state_def)
qed

subsection \<open>The loops over the cells, with periodic boundaries\<close>

lemma fold_with_invariant:
  assumes step: "\<And>k st. k < N \<Longrightarrow> I k st \<Longrightarrow>
      I (Suc k) (f (int k) st) \<and> c (f (int k) st) = c st + d \<and>
      p (f (int k) st) = p st @ F (int k) (c st)"
    and "n \<le> N" "I 0 st"
  shows "I n (fold f (map int [0..<n]) st) \<and>
         c (fold f (map int [0..<n]) st) = c st + d * int n \<and>
         p (fold f (map int [0..<n]) st)
         = p st @ concat (map (\<lambda>k. F k (c st + d * k)) (map int [0..<n]))"
  using assms(2)
proof (induction n)
  case 0
  then show ?case using assms(3) by simp
next
  case (Suc n)
  then have ih: "I n (fold f (map int [0..<n]) st)"
    "c (fold f (map int [0..<n]) st) = c st + d * int n"
    "p (fold f (map int [0..<n]) st)
         = p st @ concat (map (\<lambda>k. F k (c st + d * k)) (map int [0..<n]))"
    by simp_all
  have "n < N" using Suc.prems by simp
  from step[OF this ih(1)] ih(2,3) show ?case by (simp add: algebra_simps)
qed

lemma lookups_wrap:
  "lookups n c = [a, b, e] \<Longrightarrow> wrap a = No \<and> wrap b = No"
  by (auto simp add: lookups_def split: if_splits)

lemma x_step_state:
  assumes "number_of_cells g = (nx, ny, nz)"
    and "dz_list st = (z0, z1)" "dy_list st = (y0, y1, y2)"
    and "wrap z0 = No" "wrap z1 \<noteq> PlusLength" "wrap y0 = No" "wrap y1 = No"
    and "wrap (fst (dx_list st)) = No" "wrap (fst (snd (dx_list st))) = No"
  shows "dz_list (x_step g z y x st) = (z0, z1)"
    and "dy_list (x_step g z y x st) = (y0, y1, y2)"
    and "wrap (fst (dx_list (x_step g z y x st))) = No"
    and "wrap (fst (snd (dx_list (x_step g z y x st)))) = No"
    and "search_cell_index (x_step g z y x st) = search_cell_index st + 1"
    and "calls_made (x_step g z y x st)
         = calls_made st @
           search_calls g (x, y, z) (search_cell_index st) [z0, z1] [y0, y1, y2]
             (lookups nx x)"
proof -
  obtain d0 d1 d2 where d: "dx_list st = (d0, d1, d2)" by (cases "dx_list st") auto
  from assms(8,9) have w: "wrap d0 = No" "wrap d1 = No" by (simp_all add: d)
  obtain a b e where l: "lookups nx x = [a, b, e]" by (simp add: lookups_def)
  have lw: "wrap a = No" "wrap b = No" using lookups_wrap[OF l] by simp_all
  have e: "x_step g z y x st
       = st\<lparr>dx_list := (a, b, e),
            calls_made := search_cell_periodic g (x, y, z) (search_cell_index st)
                            [z0, z1] [y0, y1, y2] [a, b, e] (calls_made st),
            search_cell_index := search_cell_index st + 1\<rparr>"
    using l w unfolding x_step_def assms(1,2,3) d
    by (cases d0; cases d1; cases d2) (auto simp add: lookups_def Let_def)
  show "dz_list (x_step g z y x st) = (z0, z1)" by (simp add: e assms(2))
  show "dy_list (x_step g z y x st) = (y0, y1, y2)" by (simp add: e assms(3))
  show "wrap (fst (dx_list (x_step g z y x st))) = No" by (simp add: e lw)
  show "wrap (fst (snd (dx_list (x_step g z y x st)))) = No" by (simp add: e lw)
  show "search_cell_index (x_step g z y x st) = search_cell_index st + 1" by (simp add: e)
  show "calls_made (x_step g z y x st)
         = calls_made st @
           search_calls g (x, y, z) (search_cell_index st) [z0, z1] [y0, y1, y2]
             (lookups nx x)"
    by (simp add: e l search_cell_periodic_append)
qed


lemma upto_nat: "0 \<le> n \<Longrightarrow> [0..n - 1] = map int [0..<nat n]"
  using upto_as_upt[of "nat n"] by simp

lemma x_loop_state:
  assumes "number_of_cells g = (nx, ny, nz)" "0 \<le> nx"
    and "dz_list st = (z0, z1)" "dy_list st = (y0, y1, y2)"
    and "wrap z0 = No" "wrap z1 \<noteq> PlusLength" "wrap y0 = No" "wrap y1 = No"
    and "wrap (fst (dx_list st)) = No" "wrap (fst (snd (dx_list st))) = No"
  shows "dz_list (fold (x_step g z y) [0..nx - 1] st) = (z0, z1)"
    and "dy_list (fold (x_step g z y) [0..nx - 1] st) = (y0, y1, y2)"
    and "wrap (fst (dx_list (fold (x_step g z y) [0..nx - 1] st))) = No"
    and "wrap (fst (snd (dx_list (fold (x_step g z y) [0..nx - 1] st)))) = No"
    and "search_cell_index (fold (x_step g z y) [0..nx - 1] st) = search_cell_index st + nx"
    and "calls_made (fold (x_step g z y) [0..nx - 1] st)
         = calls_made st @
           concat (map (\<lambda>x. search_calls g (x, y, z) (search_cell_index st + x)
                          [z0, z1] [y0, y1, y2] (lookups nx x)) [0..nx - 1])"
proof -
  define I where "I = (\<lambda>(k::nat) (st::iteration). dz_list st = (z0, z1) \<and> dy_list st = (y0, y1, y2) \<and>
      wrap (fst (dx_list st)) = No \<and> wrap (fst (snd (dx_list st))) = No)"
  have step: "\<And>k st. k < nat nx \<Longrightarrow> I k st \<Longrightarrow>
      I (Suc k) (x_step g z y (int k) st) \<and>
      search_cell_index (x_step g z y (int k) st) = search_cell_index st + 1 \<and>
      calls_made (x_step g z y (int k) st)
      = calls_made st @
        search_calls g (int k, y, z) (search_cell_index st)
          [z0, z1] [y0, y1, y2] (lookups nx (int k))"
  proof -
    fix k st assume "I k st"
    then have i: "dz_list st = (z0, z1)" "dy_list st = (y0, y1, y2)"
      "wrap (fst (dx_list st)) = No" "wrap (fst (snd (dx_list st))) = No"
      by (simp_all add: I_def)
    note x = x_step_state[OF assms(1) i(1,2) assms(5-8) i(3,4), of z y "int k"]
    show "I (Suc k) (x_step g z y (int k) st) \<and>
      search_cell_index (x_step g z y (int k) st) = search_cell_index st + 1 \<and>
      calls_made (x_step g z y (int k) st)
      = calls_made st @
        search_calls g (int k, y, z) (search_cell_index st)
          [z0, z1] [y0, y1, y2] (lookups nx (int k))"
      using x by (simp add: I_def)
  qed
  have i0: "I 0 st" using assms(3,4,9,10) by (simp add: I_def)
  note f = fold_with_invariant[where I = I and f = "x_step g z y" and c = search_cell_index
      and d = 1 and p = calls_made
      and F = "\<lambda>k i. search_calls g (k, y, z) i [z0, z1] [y0, y1, y2] (lookups nx k)"
      and N = "nat nx" and n = "nat nx" and st = st, OF step _ i0,
      folded upto_nat[OF assms(2)]]
  from f show "dz_list (fold (x_step g z y) [0..nx - 1] st) = (z0, z1)"
    and "dy_list (fold (x_step g z y) [0..nx - 1] st) = (y0, y1, y2)"
    and "wrap (fst (dx_list (fold (x_step g z y) [0..nx - 1] st))) = No"
    and "wrap (fst (snd (dx_list (fold (x_step g z y) [0..nx - 1] st)))) = No"
    by (simp_all add: I_def)
  from f show "search_cell_index (fold (x_step g z y) [0..nx - 1] st) = search_cell_index st + nx"
    using assms(2) by simp
  from f show "calls_made (fold (x_step g z y) [0..nx - 1] st)
         = calls_made st @
           concat (map (\<lambda>x. search_calls g (x, y, z) (search_cell_index st + x)
                          [z0, z1] [y0, y1, y2] (lookups nx x)) [0..nx - 1])"
    by simp
qed


lemma y_step_state:
  assumes "number_of_cells g = (nx, ny, nz)" "0 \<le> nx"
    and "dz_list st = (z0, z1)" "wrap z0 = No" "wrap z1 \<noteq> PlusLength"
    and "wrap (fst (dy_list st)) = No" "wrap (fst (snd (dy_list st))) = No"
    and "wrap (fst (dx_list st)) = No" "wrap (fst (snd (dx_list st))) = No"
  shows "dz_list (y_step g z y st) = (z0, z1)"
    and "wrap (fst (dy_list (y_step g z y st))) = No"
    and "wrap (fst (snd (dy_list (y_step g z y st)))) = No"
    and "wrap (fst (dx_list (y_step g z y st))) = No"
    and "wrap (fst (snd (dx_list (y_step g z y st)))) = No"
    and "search_cell_index (y_step g z y st) = search_cell_index st + nx"
    and "calls_made (y_step g z y st)
         = calls_made st @
           concat (map (\<lambda>x. search_calls g (x, y, z) (search_cell_index st + x)
                          [z0, z1] (lookups ny y) (lookups nx x)) [0..nx - 1])"
proof -
  obtain d0 d1 d2 where d: "dy_list st = (d0, d1, d2)" by (cases "dy_list st") auto
  from assms(6,7) have w: "wrap d0 = No" "wrap d1 = No" by (simp_all add: d)
  obtain a b e where l: "lookups ny y = [a, b, e]" by (simp add: lookups_def)
  have lw: "wrap a = No" "wrap b = No" using lookups_wrap[OF l] by simp_all
  define s where "s = st\<lparr>dy_list := (a, b, e)\<rparr>"
  have e: "y_step g z y st = fold (x_step g z y) [0..nx - 1] s"
    using l w unfolding y_step_def assms(1) d s_def
    by (cases d0; cases d1; cases d2) (auto simp add: lookups_def Let_def)
  have s: "dz_list s = (z0, z1)" "dy_list s = (a, b, e)"
    "wrap (fst (dx_list s)) = No" "wrap (fst (snd (dx_list s))) = No"
    "search_cell_index s = search_cell_index st" "calls_made s = calls_made st"
    using assms(3,8,9) by (simp_all add: s_def)
  note x = x_loop_state[OF assms(1,2) s(1,2) assms(4,5) lw s(3,4), of z y, folded e]
  show "dz_list (y_step g z y st) = (z0, z1)" by (rule x(1))
  show "wrap (fst (dy_list (y_step g z y st))) = No" using x(2) lw by simp
  show "wrap (fst (snd (dy_list (y_step g z y st)))) = No" using x(2) lw by simp
  show "wrap (fst (dx_list (y_step g z y st))) = No" by (rule x(3))
  show "wrap (fst (snd (dx_list (y_step g z y st)))) = No" by (rule x(4))
  show "search_cell_index (y_step g z y st) = search_cell_index st + nx" using x(5) s(5) by simp
  show "calls_made (y_step g z y st)
         = calls_made st @
           concat (map (\<lambda>x. search_calls g (x, y, z) (search_cell_index st + x)
                          [z0, z1] (lookups ny y) (lookups nx x)) [0..nx - 1])"
    using x(6) s(5,6) l by simp
qed

lemma y_loop_state:
  assumes "number_of_cells g = (nx, ny, nz)" "0 \<le> nx" "0 \<le> ny"
    and "dz_list st = (z0, z1)" "wrap z0 = No" "wrap z1 \<noteq> PlusLength"
    and "wrap (fst (dy_list st)) = No" "wrap (fst (snd (dy_list st))) = No"
    and "wrap (fst (dx_list st)) = No" "wrap (fst (snd (dx_list st))) = No"
  shows "dz_list (fold (y_step g z) [0..ny - 1] st) = (z0, z1)"
    and "wrap (fst (dy_list (fold (y_step g z) [0..ny - 1] st))) = No"
    and "wrap (fst (snd (dy_list (fold (y_step g z) [0..ny - 1] st)))) = No"
    and "wrap (fst (dx_list (fold (y_step g z) [0..ny - 1] st))) = No"
    and "wrap (fst (snd (dx_list (fold (y_step g z) [0..ny - 1] st)))) = No"
    and "search_cell_index (fold (y_step g z) [0..ny - 1] st) = search_cell_index st + nx * ny"
    and "calls_made (fold (y_step g z) [0..ny - 1] st)
         = calls_made st @
           concat (map (\<lambda>y. concat (map (\<lambda>x.
             search_calls g (x, y, z) (search_cell_index st + nx * y + x)
               [z0, z1] (lookups ny y) (lookups nx x)) [0..nx - 1])) [0..ny - 1])"
proof -
  define I where "I = (\<lambda>(k::nat) (st::iteration). dz_list st = (z0, z1) \<and>
      wrap (fst (dy_list st)) = No \<and> wrap (fst (snd (dy_list st))) = No \<and>
      wrap (fst (dx_list st)) = No \<and> wrap (fst (snd (dx_list st))) = No)"
  have step: "\<And>k st. k < nat ny \<Longrightarrow> I k st \<Longrightarrow>
      I (Suc k) (y_step g z (int k) st) \<and>
      search_cell_index (y_step g z (int k) st) = search_cell_index st + nx \<and>
      calls_made (y_step g z (int k) st)
      = calls_made st @
        concat (map (\<lambda>x. search_calls g (x, int k, z) (search_cell_index st + x)
                          [z0, z1] (lookups ny (int k)) (lookups nx x)) [0..nx - 1])"
  proof -
    fix k st assume "I k st"
    then have i: "dz_list st = (z0, z1)"
      "wrap (fst (dy_list st)) = No" "wrap (fst (snd (dy_list st))) = No"
      "wrap (fst (dx_list st)) = No" "wrap (fst (snd (dx_list st))) = No"
      by (simp_all add: I_def)
    note y = y_step_state[OF assms(1,2) i(1) assms(5,6) i(2-5), of z "int k"]
    show "I (Suc k) (y_step g z (int k) st) \<and>
      search_cell_index (y_step g z (int k) st) = search_cell_index st + nx \<and>
      calls_made (y_step g z (int k) st)
      = calls_made st @
        concat (map (\<lambda>x. search_calls g (x, int k, z) (search_cell_index st + x)
                          [z0, z1] (lookups ny (int k)) (lookups nx x)) [0..nx - 1])"
      using y by (simp add: I_def)
  qed
  have i0: "I 0 st" using assms(4,7-10) by (simp add: I_def)
  note f = fold_with_invariant[where I = I and f = "y_step g z" and c = search_cell_index
      and d = nx and p = calls_made
      and F = "\<lambda>k i. concat (map (\<lambda>x. search_calls g (x, k, z) (i + x)
                          [z0, z1] (lookups ny k) (lookups nx x)) [0..nx - 1])"
      and N = "nat ny" and n = "nat ny" and st = st, OF step _ i0,
      folded upto_nat[OF assms(3)]]
  from f show "dz_list (fold (y_step g z) [0..ny - 1] st) = (z0, z1)"
    and "wrap (fst (dy_list (fold (y_step g z) [0..ny - 1] st))) = No"
    and "wrap (fst (snd (dy_list (fold (y_step g z) [0..ny - 1] st)))) = No"
    and "wrap (fst (dx_list (fold (y_step g z) [0..ny - 1] st))) = No"
    and "wrap (fst (snd (dx_list (fold (y_step g z) [0..ny - 1] st)))) = No"
    by (simp_all add: I_def)
  from f show "search_cell_index (fold (y_step g z) [0..ny - 1] st) = search_cell_index st + nx * ny"
    using assms(3) by simp
  from f show "calls_made (fold (y_step g z) [0..ny - 1] st)
         = calls_made st @
           concat (map (\<lambda>y. concat (map (\<lambda>x.
             search_calls g (x, y, z) (search_cell_index st + nx * y + x)
               [z0, z1] (lookups ny y) (lookups nx x)) [0..nx - 1])) [0..ny - 1])"
    by simp
qed

lemma z_step_state:
  assumes "number_of_cells g = (nx, ny, nz)" "0 \<le> nx" "0 \<le> ny"
    and "wrap (fst (dz_list st)) = No" "wrap (snd (dz_list st)) = No"
    and "wrap (fst (dy_list st)) = No" "wrap (fst (snd (dy_list st))) = No"
    and "wrap (fst (dx_list st)) = No" "wrap (fst (snd (dx_list st))) = No"
  shows "wrap (fst (dz_list (z_step g z st))) = No"
    and "wrap (snd (dz_list (z_step g z st))) = (if z + 1 = nz then MinusLength else No)"
    and "wrap (fst (dy_list (z_step g z st))) = No"
    and "wrap (fst (snd (dy_list (z_step g z st)))) = No"
    and "wrap (fst (dx_list (z_step g z st))) = No"
    and "wrap (fst (snd (dx_list (z_step g z st)))) = No"
    and "search_cell_index (z_step g z st) = search_cell_index st + nx * ny"
    and "calls_made (z_step g z st)
         = calls_made st @
           concat (map (\<lambda>y. concat (map (\<lambda>x.
             search_calls g (x, y, z) (search_cell_index st + nx * y + x)
               (z_lookups nz z) (lookups ny y) (lookups nx x)) [0..nx - 1])) [0..ny - 1])"
proof -
  obtain d0 d1 where d: "dz_list st = (d0, d1)" by (cases "dz_list st") auto
  from assms(4,5) have w: "wrap d0 = No" "wrap d1 = No" by (simp_all add: d)
  obtain a b where l: "z_lookups nz z = [a, b]" by (simp add: z_lookups_def)
  have lw: "wrap a = No" "wrap b \<noteq> PlusLength" "wrap b = (if z + 1 = nz then MinusLength else No)"
    using l by (auto simp add: z_lookups_def split: if_splits)
  define s where "s = st\<lparr>dz_list := (a, b)\<rparr>"
  have e: "z_step g z st = fold (y_step g z) [0..ny - 1] s"
    using l w unfolding z_step_def assms(1) d s_def
    by (cases d0; cases d1) (auto simp add: z_lookups_def Let_def)
  have s: "dz_list s = (a, b)"
    "wrap (fst (dy_list s)) = No" "wrap (fst (snd (dy_list s))) = No"
    "wrap (fst (dx_list s)) = No" "wrap (fst (snd (dx_list s))) = No"
    "search_cell_index s = search_cell_index st" "calls_made s = calls_made st"
    using assms(6-9) by (simp_all add: s_def)
  note y = y_loop_state[OF assms(1,2,3) s(1) lw(1,2) s(2-5), of z, folded e]
  show "wrap (fst (dz_list (z_step g z st))) = No" using y(1) lw by simp
  show "wrap (snd (dz_list (z_step g z st))) = (if z + 1 = nz then MinusLength else No)"
    using y(1) lw(3) by simp
  show "wrap (fst (dy_list (z_step g z st))) = No" by (rule y(2))
  show "wrap (fst (snd (dy_list (z_step g z st)))) = No" by (rule y(3))
  show "wrap (fst (dx_list (z_step g z st))) = No" by (rule y(4))
  show "wrap (fst (snd (dx_list (z_step g z st)))) = No" by (rule y(5))
  show "search_cell_index (z_step g z st) = search_cell_index st + nx * ny"
    using y(6) s(6) by simp
  show "calls_made (z_step g z st)
         = calls_made st @
           concat (map (\<lambda>y. concat (map (\<lambda>x.
             search_calls g (x, y, z) (search_cell_index st + nx * y + x)
               (z_lookups nz z) (lookups ny y) (lookups nx x)) [0..nx - 1])) [0..ny - 1])"
    using y(7) s(6,7) l by simp
qed

lemma iterate_cells_periodic_raster:
  assumes "number_of_cells g = (nx, ny, nz)" "0 \<le> nx" "0 \<le> ny" "0 \<le> nz"
  shows "iterate_cells_periodic g
         = concat (map (cell_calls_periodic g) (raster_cells (nx, ny, nz)))"
proof -
  define I where "I = (\<lambda>(k::nat) (st::iteration).
      wrap (fst (dz_list st)) = No \<and> (int k < nz \<longrightarrow> wrap (snd (dz_list st)) = No) \<and>
      wrap (fst (dy_list st)) = No \<and> wrap (fst (snd (dy_list st))) = No \<and>
      wrap (fst (dx_list st)) = No \<and> wrap (fst (snd (dx_list st))) = No)"
  define s0 where "s0 = \<lparr>dz_list = (default_lookup, default_lookup),
      dy_list = (default_lookup, default_lookup, default_lookup),
      dx_list = (default_lookup, default_lookup, default_lookup),
      search_cell_index = 0, calls_made = []\<rparr>"
  have step: "\<And>k st. k < nat nz \<Longrightarrow> I k st \<Longrightarrow>
      I (Suc k) (z_step g (int k) st) \<and>
      search_cell_index (z_step g (int k) st) = search_cell_index st + nx * ny \<and>
      calls_made (z_step g (int k) st)
      = calls_made st @
        concat (map (\<lambda>y. concat (map (\<lambda>x.
             search_calls g (x, y, int k) (search_cell_index st + nx * y + x)
               (z_lookups nz (int k)) (lookups ny y) (lookups nx x)) [0..nx - 1])) [0..ny - 1])"
  proof -
    fix k st assume k: "k < nat nz" and "I k st"
    then have i: "wrap (fst (dz_list st)) = No" "wrap (snd (dz_list st)) = No"
      "wrap (fst (dy_list st)) = No" "wrap (fst (snd (dy_list st))) = No"
      "wrap (fst (dx_list st)) = No" "wrap (fst (snd (dx_list st))) = No"
      by (simp_all add: I_def)
    note z = z_step_state[OF assms(1,2,3) i, of "int k"]
    show "I (Suc k) (z_step g (int k) st) \<and>
      search_cell_index (z_step g (int k) st) = search_cell_index st + nx * ny \<and>
      calls_made (z_step g (int k) st)
      = calls_made st @
        concat (map (\<lambda>y. concat (map (\<lambda>x.
             search_calls g (x, y, int k) (search_cell_index st + nx * y + x)
               (z_lookups nz (int k)) (lookups ny y) (lookups nx x)) [0..nx - 1])) [0..ny - 1])"
      using z by (auto simp add: I_def)
  qed
  have i0: "I 0 s0" by (simp add: I_def s0_def default_lookup_def)
  note f = fold_with_invariant[where I = I and f = "z_step g" and c = search_cell_index
      and d = "nx * ny" and p = calls_made
      and F = "\<lambda>k i. concat (map (\<lambda>y. concat (map (\<lambda>x.
             search_calls g (x, y, k) (i + nx * y + x)
               (z_lookups nz k) (lookups ny y) (lookups nx x)) [0..nx - 1])) [0..ny - 1])"
      and N = "nat nz" and n = "nat nz" and st = s0, OF step _ i0,
      folded upto_nat[OF assms(4)]]
  have idx: "\<And>x y z. nx * ny * z + nx * y + x = make_index_array (nx, ny, nz) (x, y, z)"
    by (simp add: make_index_array_def make_index_def algebra_simps)
  have "iterate_cells_periodic g
        = concat (map (\<lambda>z. concat (map (\<lambda>y. concat (map (\<lambda>x.
             cell_calls_periodic g (x, y, z)) [0..nx - 1])) [0..ny - 1])) [0..nz - 1])"
    using f unfolding iterate_cells_periodic_def assms(1) s0_def[symmetric]
    by (simp add: s0_def cell_calls_periodic_def assms(1) idx)
  also have "\<dots> = concat (map (cell_calls_periodic g) (raster_cells (nx, ny, nz)))"
    unfolding raster_cells_def by (simp add: concat_map_concat_map comp_def)
  finally show ?thesis .
qed

lemma neighbor_pairs_search_calls:
  assumes "number_of_cells g = (nx, ny, nz)"
  shows "neighbor_pairs (cell_calls_periodic g (x, y, z)) = cell_pairs_periodic (nx, ny, nz) (x, y, z)"
proof -
  obtain za zb where z: "z_lookups nz z = [za, zb]" "wrap za = No" "wrap zb \<noteq> PlusLength"
    by (simp add: z_lookups_def)
  obtain ya yb yc where y: "lookups ny y = [ya, yb, yc]" by (simp add: lookups_def)
  obtain xa xb xc where x: "lookups nx x = [xa, xb, xc]" by (simp add: lookups_def)
  note yw = lookups_wrap[OF y]
  note xw = lookups_wrap[OF x]
  from search_cell_periodic_pairs[OF assms z(2,3) conjunct1[OF yw] conjunct2[OF yw]
      conjunct1[OF xw] conjunct2[OF xw], of x y z "make_index_array (nx, ny, nz) (x, y, z)" yc xc "[]"]
  show ?thesis
    by (simp add: cell_calls_periodic_def cell_pairs_periodic_def assms search_calls_def x y z(1))
qed

lemma neighbor_pairs_iterate_cells_periodic:
  assumes "number_of_cells g = (nx, ny, nz)" "0 \<le> nx" "0 \<le> ny" "0 \<le> nz"
  shows "neighbor_pairs (iterate_cells_periodic g)
         = concat (map (cell_pairs_periodic (nx, ny, nz)) (raster_cells (nx, ny, nz)))"
proof -
  have "\<And>c. neighbor_pairs (cell_calls_periodic g c) = cell_pairs_periodic (nx, ny, nz) c"
  proof -
    fix c :: "int \<times> int \<times> int"
    obtain x y z where c: "c = (x, y, z)" by (cases c) auto
    show "neighbor_pairs (cell_calls_periodic g c) = cell_pairs_periodic (nx, ny, nz) c"
      unfolding c by (rule neighbor_pairs_search_calls[OF assms(1)])
  qed
  then show ?thesis
    unfolding iterate_cells_periodic_raster[OF assms]
    by (simp add: neighbor_pairs_concat comp_def)
qed

subsection \<open>The neighbors of one search cell, with periodic boundaries\<close>

lemma lookups_lookup_for:
  assumes "0 \<le> c" "c < n" "2 \<le> n"
  shows "lookups n c = map (lookup_for n c) (dirs c)"
proof -
  have m: "(- 1) mod n = n - 1" using assms(3) by (simp add: zmod_minus1)
  show ?thesis using assms m
    by (auto simp add: lookups_def dirs_def lookup_for_def)
qed

lemma z_lookups_lookup_for:
  assumes "0 \<le> c" "c < n" "2 \<le> n"
  shows "z_lookups n c = map (lookup_for n c) [0, 1]"
  using assms by (auto simp add: z_lookups_def lookup_for_def)

lemma virtual_index_lookup_for:
  assumes "0 \<le> c" "c < n" "2 \<le> n" "\<bar>d\<bar> \<le> 1"
  shows "virtual_index n c (lookup_for n c d) = (c + d) mod n - d"
proof -
  consider "c + d < 0" | "n \<le> c + d" | "0 \<le> c + d" "c + d < n" by linarith
  then show ?thesis
  proof cases
    case 1
    then have "c = 0" "d = - 1" using assms by auto
    then show ?thesis using assms(3) by (simp add: virtual_index_def lookup_for_def zmod_minus1)
  next
    case 2
    then have "c + d = n" using assms by auto
    then show ?thesis using 2 assms by (simp add: virtual_index_def lookup_for_def)
  next
    case 3
    then show ?thesis by (simp add: virtual_index_def lookup_for_def)
  qed
qed


lemma concat_map3_cong:
  assumes "\<And>a b c. a \<in> set as \<Longrightarrow> b \<in> set bs \<Longrightarrow> c \<in> set cs \<Longrightarrow> f a b c = g a b c"
  shows "concat (map (\<lambda>a. concat (map (\<lambda>b. concat (map (\<lambda>c. f a b c) cs)) bs)) as)
         = concat (map (\<lambda>a. concat (map (\<lambda>b. concat (map (\<lambda>c. g a b c) cs)) bs)) as)"
  by (intro arg_cong[where f = concat] map_cong refl) (rule assms)

lemma dirs_abs: "d \<in> set (dirs c) \<Longrightarrow> \<bar>d\<bar> \<le> 1"
  by (auto simp add: dirs_def split: if_splits)

lemma make_index_le_iff:
  "make_index noc a b c \<le> make_index noc a' b' c'
   \<longleftrightarrow> \<not> 0 < make_index noc (a - a') (b - b') (c - c')"
  by (cases noc) (simp add: make_index_def algebra_simps not_less)

lemma cell_pairs_periodic_directions:
  assumes "in_grid (nx, ny, nz) (x, y, z)" "2 \<le> nx" "2 \<le> ny" "2 \<le> nz"
  shows "cell_pairs_periodic (nx, ny, nz) (x, y, z)
         = map (\<lambda>(dz, dy, dx). (make_index_array (nx, ny, nz) (x, y, z),
                   make_index_array (nx, ny, nz) (step_cell (nx, ny, nz) (x, y, z) (dx, dy, dz))))
             (filter (\<lambda>(dz, dy, dx). forward (dx, dy, dz))
                (List.product [0, 1] (List.product (dirs y) (dirs x))))"
proof -
  from assms(1) have b: "0 \<le> x" "x < nx" "0 \<le> y" "y < ny" "0 \<le> z" "z < nz"
    by (simp_all add: in_grid_def)
  let ?i = "make_index_array (nx, ny, nz) (x, y, z)"
  let ?f = "\<lambda>dz dy dx.
      if make_index (nx, ny, nz) (index (lookup_for nx x dx)) (index (lookup_for ny y dy))
           (index (lookup_for nz z dz))
         \<le> make_index (nx, ny, nz) (virtual_index nx x (lookup_for nx x dx))
             (virtual_index ny y (lookup_for ny y dy)) (virtual_index nz z (lookup_for nz z dz))
      then []
      else [(?i, make_index (nx, ny, nz) (index (lookup_for nx x dx))
                   (index (lookup_for ny y dy)) (index (lookup_for nz z dz)))]"
  let ?g = "\<lambda>dz dy dx.
      if forward (dx, dy, dz)
      then [(?i, make_index_array (nx, ny, nz) (step_cell (nx, ny, nz) (x, y, z) (dx, dy, dz)))]
      else []"
  have fg: "\<And>dz dy dx. dz \<in> set [0, 1] \<Longrightarrow> dy \<in> set (dirs y) \<Longrightarrow> dx \<in> set (dirs x) \<Longrightarrow>
      ?f dz dy dx = ?g dz dy dx"
  proof -
    fix dz dy dx :: int
    assume d: "dz \<in> set [0, 1]" "dy \<in> set (dirs y)" "dx \<in> set (dirs x)"
    then have a: "\<bar>dz\<bar> \<le> 1" "\<bar>dy\<bar> \<le> 1" "\<bar>dx\<bar> \<le> 1" using dirs_abs by auto
    have vx: "virtual_index nx x (lookup_for nx x dx) = (x + dx) mod nx - dx"
      by (rule virtual_index_lookup_for[OF b(1,2) assms(2) a(3)])
    have vy: "virtual_index ny y (lookup_for ny y dy) = (y + dy) mod ny - dy"
      by (rule virtual_index_lookup_for[OF b(3,4) assms(3) a(2)])
    have vz: "virtual_index nz z (lookup_for nz z dz) = (z + dz) mod nz - dz"
      by (rule virtual_index_lookup_for[OF b(5,6) assms(4) a(1)])
    have ix: "\<And>n c d. index (lookup_for n c d) = (c + d) mod n" by (simp add: lookup_for_def)
    have p: "0 < make_index (nx, ny, nz) dx dy dz \<longleftrightarrow> forward (dx, dy, dz)"
      unfolding forward_def using make_index_pos_iff[of dx nx dy ny nz dz] a assms(2,3) by simp
    show "?f dz dy dx = ?g dz dy dx"
      unfolding vx vy vz ix make_index_le_iff
      by (simp add: p step_cell_def make_index_array_def)
  qed
  have "cell_pairs_periodic (nx, ny, nz) (x, y, z)
        = concat (map (\<lambda>dz. concat (map (\<lambda>dy. concat (map (\<lambda>dx. ?f dz dy dx)
            (dirs x))) (dirs y))) [0, 1])"
    by (simp only: cell_pairs_periodic_def lookup_pairs_def prod.case
        lookups_lookup_for[OF b(1,2) assms(2)] lookups_lookup_for[OF b(3,4) assms(3)]
        z_lookups_lookup_for[OF b(5,6) assms(4)] map_map comp_def)
  also have "\<dots> = concat (map (\<lambda>dz. concat (map (\<lambda>dy. concat (map (\<lambda>dx. ?g dz dy dx)
            (dirs x))) (dirs y))) [0, 1])"
    by (rule concat_map3_cong) (rule fg)
  also have "\<dots> = concat (map (\<lambda>(dz, dy, dx). ?g dz dy dx)
            (List.product [0, 1] (List.product (dirs y) (dirs x))))"
    by (simp add: product_concat_map concat_map_concat_map comp_def)
  also have "\<dots> = map (\<lambda>(dz, dy, dx). (?i,
                   make_index_array (nx, ny, nz) (step_cell (nx, ny, nz) (x, y, z) (dx, dy, dz))))
             (filter (\<lambda>(dz, dy, dx). forward (dx, dy, dz))
                (List.product [0, 1] (List.product (dirs y) (dirs x))))"
    by (rule concat_map_if_singleton)
  finally show ?thesis .
qed


lemma map_filter_reverse_triple:
  "map (\<lambda>(a, b, c). f (c, b, a)) (filter (\<lambda>(a, b, c). P (c, b, a)) xs)
   = map f (filter P (map (\<lambda>(a, b, c). (c, b, a)) xs))"
  by (induction xs) auto

lemma cell_pairs_periodic_forward:
  assumes "in_grid noc c" "noc = (nx, ny, nz)" "2 \<le> nx" "2 \<le> ny" "2 \<le> nz"
  shows "\<exists>D. distinct D \<and>
           set D = {(dx, dy, dz). \<bar>dx\<bar> \<le> 1 \<and> \<bar>dy\<bar> \<le> 1 \<and> (dz = 0 \<or> dz = 1)} \<and>
           cell_pairs_periodic noc c
           = map (\<lambda>d. (make_index_array noc c, make_index_array noc (step_cell noc c d)))
               (filter forward D)"
proof -
  obtain x y z where c: "c = (x, y, z)" by (cases c) auto
  define E where "E = List.product [0, 1 :: int] (List.product (dirs y) (dirs x))"
  define D where "D = map (\<lambda>(dz, dy, dx). (dx, dy, dz)) E"
  have dd: "\<And>c. distinct (dirs c)" "\<And>c. set (dirs c) = {d. \<bar>d\<bar> \<le> 1}"
    by (auto simp add: dirs_def)
  have "distinct E" unfolding E_def by (intro distinct_product) (simp_all add: dd(1))
  moreover have "inj_on (\<lambda>(dz :: int, dy :: int, dx :: int). (dx, dy, dz)) (set E)"
    by (auto simp add: inj_on_def)
  ultimately have 1: "distinct D" unfolding D_def by (simp add: distinct_map)
  have 2: "set D = {(dx, dy, dz). \<bar>dx\<bar> \<le> 1 \<and> \<bar>dy\<bar> \<le> 1 \<and> (dz = 0 \<or> dz = 1)}"
    unfolding D_def E_def by (auto simp add: dd(2) image_iff)
  have "cell_pairs_periodic noc c
        = map (\<lambda>(dz, dy, dx). (make_index_array noc c,
                   make_index_array noc (step_cell noc c (dx, dy, dz))))
             (filter (\<lambda>(dz, dy, dx). forward (dx, dy, dz)) E)"
    using cell_pairs_periodic_directions[OF assms(1)[unfolded assms(2) c] assms(3,4,5)]
    by (simp add: assms(2) c E_def)
  also have "\<dots> = map (\<lambda>d. (make_index_array noc c, make_index_array noc (step_cell noc c d)))
               (filter forward D)"
    unfolding D_def by (rule map_filter_reverse_triple)
  finally show ?thesis using 1 2 by blast
qed

lemma step_cell_in_grid:
  assumes "noc = (nx, ny, nz)" "0 < nx" "0 < ny" "0 < nz"
  shows "in_grid noc (step_cell noc c d)"
  using assms by (cases c; cases d) (simp add: in_grid_def step_cell_def)

lemma count_list_map_distinct:
  "distinct xs \<Longrightarrow> count_list (map f xs) v = card {x \<in> set xs. f x = v}"
proof (induction xs)
  case Nil
  then show ?case by simp
next
  case (Cons x xs)
  have fin: "finite {y \<in> set xs. f y = v}" by simp
  have nin: "x \<notin> {y \<in> set xs. f y = v}" using Cons.prems by simp
  have "{y \<in> set (x # xs). f y = v}
        = (if f x = v then insert x {y \<in> set xs. f y = v} else {y \<in> set xs. f y = v})"
    by auto
  then show ?case using Cons fin nin by simp
qed

lemma count_list_cell_pairs_periodic:
  assumes "in_grid noc c" "in_grid noc c'" "noc = (nx, ny, nz)" "2 \<le> nx" "2 \<le> ny" "2 \<le> nz"
  shows "count_list (cell_pairs_periodic noc c) (make_index_array noc c, make_index_array noc c')
         = card {d. (case d of (dx, dy, dz) \<Rightarrow> \<bar>dx\<bar> \<le> 1 \<and> \<bar>dy\<bar> \<le> 1 \<and> \<bar>dz\<bar> \<le> 1) \<and>
                    forward d \<and> step_cell noc c d = c'}"
proof -
  from cell_pairs_periodic_forward[OF assms(1,3,4,5,6)] obtain D where D: "distinct D"
    "set D = {(dx, dy, dz). \<bar>dx\<bar> \<le> 1 \<and> \<bar>dy\<bar> \<le> 1 \<and> (dz = 0 \<or> dz = 1)}"
    "cell_pairs_periodic noc c
     = map (\<lambda>d. (make_index_array noc c, make_index_array noc (step_cell noc c d)))
         (filter forward D)" by blast
  have g: "\<And>d. in_grid noc (step_cell noc c d)"
    by (rule step_cell_in_grid[OF assms(3)]) (use assms(4,5,6) in simp_all)
  have "count_list (cell_pairs_periodic noc c) (make_index_array noc c, make_index_array noc c')
        = card {d \<in> set (filter forward D).
                 (make_index_array noc c, make_index_array noc (step_cell noc c d))
                 = (make_index_array noc c, make_index_array noc c')}"
    unfolding D(3) by (rule count_list_map_distinct) (simp add: D(1))
  also have "{d \<in> set (filter forward D).
                 (make_index_array noc c, make_index_array noc (step_cell noc c d))
                 = (make_index_array noc c, make_index_array noc c')}
             = {d. (case d of (dx, dy, dz) \<Rightarrow> \<bar>dx\<bar> \<le> 1 \<and> \<bar>dy\<bar> \<le> 1 \<and> \<bar>dz\<bar> \<le> 1) \<and>
                    forward d \<and> step_cell noc c d = c'}"
    using make_index_array_inj[OF g assms(2)]
    by (auto simp add: D(2) forward_def)
  finally show ?thesis .
qed


subsection \<open>Every connecting direction exactly once, with periodic boundaries\<close>

lemma cell_pairs_periodic_first:
  assumes "in_grid noc c" "noc = (nx, ny, nz)" "2 \<le> nx" "2 \<le> ny" "2 \<le> nz"
    and "(i, j) \<in> set (cell_pairs_periodic noc c)"
  shows "i = make_index_array noc c"
    and "\<exists>d. (case d of (dx, dy, dz) \<Rightarrow> \<bar>dx\<bar> \<le> 1 \<and> \<bar>dy\<bar> \<le> 1 \<and> \<bar>dz\<bar> \<le> 1) \<and> forward d \<and>
            j = make_index_array noc (step_cell noc c d)"
proof -
  from cell_pairs_periodic_forward[OF assms(1-5)] obtain D where D:
    "set D = {(dx, dy, dz). \<bar>dx\<bar> \<le> 1 \<and> \<bar>dy\<bar> \<le> 1 \<and> (dz = 0 \<or> dz = 1)}"
    "cell_pairs_periodic noc c
     = map (\<lambda>d. (make_index_array noc c, make_index_array noc (step_cell noc c d)))
         (filter forward D)" by blast
  from assms(6) obtain d where d: "d \<in> set D" "forward d" "i = make_index_array noc c"
    "j = make_index_array noc (step_cell noc c d)"
    unfolding D(2) by auto
  show "i = make_index_array noc c" by (rule d(3))
  have "case d of (dx, dy, dz) \<Rightarrow> \<bar>dx\<bar> \<le> 1 \<and> \<bar>dy\<bar> \<le> 1 \<and> \<bar>dz\<bar> \<le> 1"
    using d(1) unfolding D(1) by auto
  then show "\<exists>d. (case d of (dx, dy, dz) \<Rightarrow> \<bar>dx\<bar> \<le> 1 \<and> \<bar>dy\<bar> \<le> 1 \<and> \<bar>dz\<bar> \<le> 1) \<and> forward d \<and>
            j = make_index_array noc (step_cell noc c d)"
    using d(2,4) by blast
qed

lemma count_list_iterate_cells_periodic:
  assumes "number_of_cells g = noc" "noc = (nx, ny, nz)" "2 \<le> nx" "2 \<le> ny" "2 \<le> nz"
    and "in_grid noc c" "in_grid noc c'"
  shows "count_list (neighbor_pairs (iterate_cells_periodic g))
           (make_index_array noc c, make_index_array noc c')
         = card {d. (case d of (dx, dy, dz) \<Rightarrow> \<bar>dx\<bar> \<le> 1 \<and> \<bar>dy\<bar> \<le> 1 \<and> \<bar>dz\<bar> \<le> 1) \<and>
                    forward d \<and> step_cell noc c d = c'}"
proof -
  let ?v = "(make_index_array noc c, make_index_array noc c')"
  have r: "neighbor_pairs (iterate_cells_periodic g)
           = concat (map (cell_pairs_periodic noc) (raster_cells noc))"
    unfolding assms(2)
    by (rule neighbor_pairs_iterate_cells_periodic[OF assms(1)[unfolded assms(2)]])
       (use assms(3,4,5) in simp_all)
  have other: "\<And>e. e \<in> set (raster_cells noc) \<Longrightarrow> e \<noteq> c \<Longrightarrow> ?v \<notin> set (cell_pairs_periodic noc e)"
  proof
    fix e assume e: "e \<in> set (raster_cells noc)" "e \<noteq> c"
      and v: "?v \<in> set (cell_pairs_periodic noc e)"
    from e(1) have eg: "in_grid noc e" by (simp add: set_raster_cells)
    from cell_pairs_periodic_first(1)[OF eg assms(2-5) v]
      make_index_array_inj[OF assms(6) eg] e(2)
    show False by simp
  qed
  have "count_list (neighbor_pairs (iterate_cells_periodic g)) ?v
        = (if c \<in> set (raster_cells noc) then count_list (cell_pairs_periodic noc c) ?v else 0)"
    unfolding r
    by (rule count_list_concat_map_unique[where y = c, OF distinct_raster_cells other])
  also have "\<dots> = count_list (cell_pairs_periodic noc c) ?v"
    using assms(6) by (simp add: set_raster_cells)
  finally show ?thesis
    using count_list_cell_pairs_periodic[OF assms(6,7,2,3,4,5)] by simp
qed

lemma mod_step_back:
  fixes x x' n d :: int
  assumes "0 \<le> x'" "x' < n" "(x' + d) mod n = x"
  shows "(x - d) mod n = x'"
proof -
  have "(x - d) mod n = ((x' + d) mod n - d) mod n" using assms(3) by simp
  also have "\<dots> = (x' + d - d) mod n" by (rule mod_diff_left_eq)
  also have "\<dots> = x'" using assms(1,2) by simp
  finally show ?thesis .
qed

lemma step_cell_back:
  assumes "noc = (nx, ny, nz)" "in_grid noc c" "in_grid noc c'"
  shows "step_cell noc c' (dx, dy, dz) = c \<longleftrightarrow> step_cell noc c (- dx, - dy, - dz) = c'"
proof -
  obtain x y z where c: "c = (x, y, z)" by (cases c) auto
  obtain x' y' z' where c': "c' = (x', y', z')" by (cases c') auto
  from assms(2,3) have b: "0 \<le> x" "x < nx" "0 \<le> y" "y < ny" "0 \<le> z" "z < nz"
    "0 \<le> x'" "x' < nx" "0 \<le> y'" "y' < ny" "0 \<le> z'" "z' < nz"
    by (simp_all add: in_grid_def assms(1) c c')
  show ?thesis
  proof
    assume "step_cell noc c' (dx, dy, dz) = c"
    then have "(x' + dx) mod nx = x" "(y' + dy) mod ny = y" "(z' + dz) mod nz = z"
      by (simp_all add: step_cell_def assms(1) c c')
    from mod_step_back[OF b(7,8) this(1)] mod_step_back[OF b(9,10) this(2)]
      mod_step_back[OF b(11,12) this(3)]
    show "step_cell noc c (- dx, - dy, - dz) = c'"
      by (simp add: step_cell_def assms(1) c c')
  next
    assume "step_cell noc c (- dx, - dy, - dz) = c'"
    then have "(x + - dx) mod nx = x'" "(y + - dy) mod ny = y'" "(z + - dz) mod nz = z'"
      by (simp_all add: step_cell_def assms(1) c c')
    from mod_step_back[OF b(1,2) this(1)] mod_step_back[OF b(3,4) this(2)]
      mod_step_back[OF b(5,6) this(3)]
    show "step_cell noc c' (dx, dy, dz) = c"
      by (simp add: step_cell_def assms(1) c c')
  qed
qed

lemma forward_or_backward:
  "(dx, dy, dz) \<noteq> (0, 0, 0) \<longleftrightarrow> forward (dx, dy, dz) \<or> forward (- dx, - dy, - dz)"
  "\<not> (forward (dx, dy, dz) \<and> forward (- dx, - dy, - dz))"
  by (auto simp add: forward_def)

lemma directions_step_cell:
  "directions noc c c'
   = {d. (case d of (dx, dy, dz) \<Rightarrow> \<bar>dx\<bar> \<le> 1 \<and> \<bar>dy\<bar> \<le> 1 \<and> \<bar>dz\<bar> \<le> 1) \<and> d \<noteq> (0, 0, 0) \<and>
         step_cell noc c d = c'}"
  by (cases noc; cases c) (auto simp add: directions_def step_cell_def)

lemma finite_small_directions:
  "finite {d :: int \<times> int \<times> int. case d of (dx, dy, dz) \<Rightarrow> \<bar>dx\<bar> \<le> 1 \<and> \<bar>dy\<bar> \<le> 1 \<and> \<bar>dz\<bar> \<le> 1}"
proof -
  have "{d :: int \<times> int \<times> int. case d of (dx, dy, dz) \<Rightarrow> \<bar>dx\<bar> \<le> 1 \<and> \<bar>dy\<bar> \<le> 1 \<and> \<bar>dz\<bar> \<le> 1}
        \<subseteq> {- 1..1} \<times> {- 1..1} \<times> {- 1..1}" by auto
  then show ?thesis by (rule finite_subset) simp
qed

lemma finite_directions: "finite (directions noc c c')"
  unfolding directions_step_cell
  by (rule finite_subset[OF _ finite_small_directions]) auto

lemma pair_calls_iterate_cells_periodic:
  assumes "number_of_cells g = noc" "noc = (nx, ny, nz)" "2 \<le> nx" "2 \<le> ny" "2 \<le> nz"
    and "in_grid noc c" "in_grid noc c'" "c \<noteq> c'"
  shows "pair_calls (iterate_cells_periodic g) (make_index_array noc c) (make_index_array noc c')
         = card (directions noc c c')"
proof -
  let ?S = "\<lambda>d. case d of (dx :: int, dy :: int, dz :: int) \<Rightarrow> \<bar>dx\<bar> \<le> 1 \<and> \<bar>dy\<bar> \<le> 1 \<and> \<bar>dz\<bar> \<le> 1"
  let ?neg = "\<lambda>(dx :: int, dy :: int, dz :: int). (- dx, - dy, - dz)"
  let ?A = "{d. ?S d \<and> forward d \<and> step_cell noc c d = c'}"
  let ?B = "{d. ?S d \<and> forward d \<and> step_cell noc c' d = c}"
  let ?B' = "{d. ?S d \<and> forward (?neg d) \<and> step_cell noc c d = c'}"
  have ne: "make_index_array noc c \<noteq> make_index_array noc c'"
    using make_index_array_inj[OF assms(6,7)] assms(8) by blast
  have img: "?B' = ?neg ` ?B"
  proof (rule set_eqI)
    fix d :: "int \<times> int \<times> int"
    obtain dx dy dz where d: "d = (dx, dy, dz)" by (cases d) auto
    show "d \<in> ?B' \<longleftrightarrow> d \<in> ?neg ` ?B"
    proof
      assume "d \<in> ?B'"
      then have "(- dx, - dy, - dz) \<in> ?B"
        using step_cell_back[OF assms(2,6,7), of "- dx" "- dy" "- dz"] by (simp add: d)
      then have "?neg (- dx, - dy, - dz) \<in> ?neg ` ?B" by (rule imageI)
      then show "d \<in> ?neg ` ?B" by (simp add: d)
    next
      assume "d \<in> ?neg ` ?B"
      then obtain e where e: "e \<in> ?B" "d = ?neg e" by blast
      obtain ex ey ez where ee: "e = (ex, ey, ez)" by (cases e) auto
      from e show "d \<in> ?B'"
        using step_cell_back[OF assms(2,6,7), of ex ey ez] by (simp add: ee)
    qed
  qed
  have "inj_on ?neg ?B" by (auto simp add: inj_on_def)
  then have cb: "card ?B' = card ?B" unfolding img by (rule card_image)
  have fa: "finite ?A" by (rule finite_subset[OF _ finite_small_directions]) auto
  have fb: "finite ?B'" by (rule finite_subset[OF _ finite_small_directions]) auto
  have dis: "?A \<inter> ?B' = {}" using forward_or_backward(2) by auto
  have un: "directions noc c c' = ?A \<union> ?B'"
    unfolding directions_step_cell using forward_or_backward(1) by auto
  have "pair_calls (iterate_cells_periodic g) (make_index_array noc c) (make_index_array noc c')
        = card ?A + card ?B"
    unfolding pair_calls_count[OF ne]
      count_list_iterate_cells_periodic[OF assms(1-5) assms(6,7)]
      count_list_iterate_cells_periodic[OF assms(1-5) assms(7,6)] ..
  also have "\<dots> = card ?A + card ?B'" using cb by simp
  also have "\<dots> = card (?A \<union> ?B')" using card_Un_disjoint[OF fa fb dis] by simp
  finally show ?thesis unfolding un .
qed

lemma mod_step_inj:
  fixes n x d d' :: int
  assumes "3 \<le> n" "\<bar>d\<bar> \<le> 1" "\<bar>d'\<bar> \<le> 1" "(x + d) mod n = (x + d') mod n"
  shows "d = d'"
proof (rule ccontr)
  assume ne: "d \<noteq> d'"
  have "n dvd (x + d) - (x + d')" using assms(4) by (simp add: mod_eq_dvd_iff)
  then have "n dvd d - d'" by simp
  moreover have "d - d' \<noteq> 0" using ne by simp
  ultimately have "\<bar>n\<bar> \<le> \<bar>d - d'\<bar>" by (rule dvd_imp_le_int[rotated])
  then show False using assms(1,2,3) by simp
qed

lemma card_directions:
  assumes "noc = (nx, ny, nz)" "3 \<le> nx" "3 \<le> ny" "3 \<le> nz"
  shows "card (directions noc c c') = (if adjacent_periodic noc c c' then 1 else 0)"
proof (cases "directions noc c c' = {}")
  case True
  then show ?thesis by (simp add: adjacent_periodic_def)
next
  case False
  then obtain d where d: "d \<in> directions noc c c'" by blast
  obtain x y z where c: "c = (x, y, z)" by (cases c) auto
  have "directions noc c c' \<subseteq> {d}"
  proof
    fix e assume e: "e \<in> directions noc c c'"
    obtain dx dy dz where dd: "d = (dx, dy, dz)" by (cases d) auto
    obtain ex ey ez where ee: "e = (ex, ey, ez)" by (cases e) auto
    from d e have
      "\<bar>dx\<bar> \<le> 1" "\<bar>dy\<bar> \<le> 1" "\<bar>dz\<bar> \<le> 1" "\<bar>ex\<bar> \<le> 1" "\<bar>ey\<bar> \<le> 1" "\<bar>ez\<bar> \<le> 1"
      "(x + dx) mod nx = (x + ex) mod nx" "(y + dy) mod ny = (y + ey) mod ny"
      "(z + dz) mod nz = (z + ez) mod nz"
      by (simp_all add: directions_def assms(1) c dd ee)
    from mod_step_inj[OF assms(2) this(1,4,7)] mod_step_inj[OF assms(3) this(2,5,8)]
      mod_step_inj[OF assms(4) this(3,6,9)]
    show "e \<in> {d}" by (simp add: dd ee)
  qed
  with d have "directions noc c c' = {d}" by blast
  then show ?thesis using False by (simp add: adjacent_periodic_def)
qed

lemma pair_calls_both_modes:
  assumes "number_of_cells g = noc" and "in_grid noc c" and "in_grid noc c'" and "c \<noteq> c'"
  shows "pair_calls (iterate_cells_normal g) (make_index_array noc c) (make_index_array noc c')
           = (if adjacent c c' then 1 else 0)
         \<and> (case noc of
              (nx, ny, nz) \<Rightarrow>
                2 \<le> nx \<and> 2 \<le> ny \<and> 2 \<le> nz \<longrightarrow>
                pair_calls (iterate_cells_periodic g) (make_index_array noc c)
                  (make_index_array noc c') = card (directions noc c c') \<and>
                (adjacent_periodic noc c c' \<longrightarrow>
                   1 \<le> pair_calls (iterate_cells_periodic g) (make_index_array noc c)
                         (make_index_array noc c')) \<and>
                (\<not> adjacent_periodic noc c c' \<longrightarrow>
                   pair_calls (iterate_cells_periodic g) (make_index_array noc c)
                     (make_index_array noc c') = 0) \<and>
                (3 \<le> nx \<and> 3 \<le> ny \<and> 3 \<le> nz \<longrightarrow>
                   pair_calls (iterate_cells_periodic g) (make_index_array noc c)
                     (make_index_array noc c') = (if adjacent_periodic noc c c' then 1 else 0)))"
proof
  have ne: "make_index_array noc c \<noteq> make_index_array noc c'"
    using make_index_array_inj[OF assms(2,3)] assms(4) by blast
  show "pair_calls (iterate_cells_normal g) (make_index_array noc c) (make_index_array noc c')
           = (if adjacent c c' then 1 else 0)"
    unfolding pair_calls_count[OF ne]
      count_list_iterate_cells_normal[OF assms(1,2,3)]
      count_list_iterate_cells_normal[OF assms(1,3,2)]
    using ne adjacent_sym[of c c'] by auto
  obtain nx ny nz where noc: "noc = (nx, ny, nz)" by (cases noc) auto
  have "2 \<le> nx \<and> 2 \<le> ny \<and> 2 \<le> nz \<longrightarrow>
                pair_calls (iterate_cells_periodic g) (make_index_array noc c)
                  (make_index_array noc c') = card (directions noc c c') \<and>
                (adjacent_periodic noc c c' \<longrightarrow>
                   1 \<le> pair_calls (iterate_cells_periodic g) (make_index_array noc c)
                         (make_index_array noc c')) \<and>
                (\<not> adjacent_periodic noc c c' \<longrightarrow>
                   pair_calls (iterate_cells_periodic g) (make_index_array noc c)
                     (make_index_array noc c') = 0) \<and>
                (3 \<le> nx \<and> 3 \<le> ny \<and> 3 \<le> nz \<longrightarrow>
                   pair_calls (iterate_cells_periodic g) (make_index_array noc c)
                     (make_index_array noc c') = (if adjacent_periodic noc c c' then 1 else 0))"
  proof (intro impI)
    assume n: "2 \<le> nx \<and> 2 \<le> ny \<and> 2 \<le> nz"
    then have n2: "2 \<le> nx" "2 \<le> ny" "2 \<le> nz" by simp_all
    note p = pair_calls_iterate_cells_periodic[OF assms(1) noc n2 assms(2,3,4)]
    have pos: "adjacent_periodic noc c c' \<Longrightarrow> 1 \<le> card (directions noc c c')"
      using finite_directions[of noc c c']
      by (simp add: adjacent_periodic_def Suc_le_eq card_gt_0_iff)
    have zero: "\<not> adjacent_periodic noc c c' \<Longrightarrow> card (directions noc c c') = 0"
      by (simp add: adjacent_periodic_def)
    show "pair_calls (iterate_cells_periodic g) (make_index_array noc c)
                  (make_index_array noc c') = card (directions noc c c') \<and>
                (adjacent_periodic noc c c' \<longrightarrow>
                   1 \<le> pair_calls (iterate_cells_periodic g) (make_index_array noc c)
                         (make_index_array noc c')) \<and>
                (\<not> adjacent_periodic noc c c' \<longrightarrow>
                   pair_calls (iterate_cells_periodic g) (make_index_array noc c)
                     (make_index_array noc c') = 0) \<and>
                (3 \<le> nx \<and> 3 \<le> ny \<and> 3 \<le> nz \<longrightarrow>
                   pair_calls (iterate_cells_periodic g) (make_index_array noc c)
                     (make_index_array noc c') = (if adjacent_periodic noc c c' then 1 else 0))"
      unfolding p using pos zero card_directions[OF noc, of c c'] by auto
  qed
  then show "case noc of
              (nx, ny, nz) \<Rightarrow>
                2 \<le> nx \<and> 2 \<le> ny \<and> 2 \<le> nz \<longrightarrow>
                pair_calls (iterate_cells_periodic g) (make_index_array noc c)
                  (make_index_array noc c') = card (directions noc c c') \<and>
                (adjacent_periodic noc c c' \<longrightarrow>
                   1 \<le> pair_calls (iterate_cells_periodic g) (make_index_array noc c)
                         (make_index_array noc c')) \<and>
                (\<not> adjacent_periodic noc c c' \<longrightarrow>
                   pair_calls (iterate_cells_periodic g) (make_index_array noc c)
                     (make_index_array noc c') = 0) \<and>
                (3 \<le> nx \<and> 3 \<le> ny \<and> 3 \<le> nz \<longrightarrow>
                   pair_calls (iterate_cells_periodic g) (make_index_array noc c)
                     (make_index_array noc c') = (if adjacent_periodic noc c c' then 1 else 0))"
    by (simp only: noc prod.case)
qed

lemma wrap_length_lookup_for: "wrap_length len (lookup_for n c d) = wrap_shift len n c d"
  by (simp add: wrap_length_def lookup_for_def wrap_shift_def)

lemma lookup_shapes_directions:
  assumes "number_of_cells g = (nx, ny, nz)" "grid_length g = (l0, l1, l2)"
    and "in_grid (nx, ny, nz) (x, y, z)" "2 \<le> nx" "2 \<le> ny" "2 \<le> nz"
  shows "lookup_shapes g (x, y, z) i (z_lookups nz z) (lookups ny y) (lookups nx x)
         = map (\<lambda>(dz, dy, dx).
                  Neighbor_Shape i
                    (wrap_shift l0 nx x dx, wrap_shift l1 ny y dy, wrap_shift l2 nz z dz)
                    (make_index_array (nx, ny, nz) (step_cell (nx, ny, nz) (x, y, z) (dx, dy, dz))))
             (filter (\<lambda>(dz, dy, dx). forward (dx, dy, dz))
                (List.product [0, 1] (List.product (dirs y) (dirs x))))"
proof -
  from assms(3) have b: "0 \<le> x" "x < nx" "0 \<le> y" "y < ny" "0 \<le> z" "z < nz"
    by (simp_all add: in_grid_def)
  let ?f = "\<lambda>dz dy dx.
      if make_index (nx, ny, nz) (index (lookup_for nx x dx)) (index (lookup_for ny y dy))
           (index (lookup_for nz z dz))
         \<le> make_index (nx, ny, nz) (virtual_index nx x (lookup_for nx x dx))
             (virtual_index ny y (lookup_for ny y dy)) (virtual_index nz z (lookup_for nz z dz))
      then []
      else [Neighbor_Shape i
              (wrap_length l0 (lookup_for nx x dx), wrap_length l1 (lookup_for ny y dy),
               wrap_length l2 (lookup_for nz z dz))
              (make_index (nx, ny, nz) (index (lookup_for nx x dx))
                   (index (lookup_for ny y dy)) (index (lookup_for nz z dz)))]"
  let ?h = "\<lambda>dz dy dx. Neighbor_Shape i
                    (wrap_shift l0 nx x dx, wrap_shift l1 ny y dy, wrap_shift l2 nz z dz)
                    (make_index_array (nx, ny, nz) (step_cell (nx, ny, nz) (x, y, z) (dx, dy, dz)))"
  let ?g = "\<lambda>dz dy dx. if forward (dx, dy, dz) then [?h dz dy dx] else []"
  have fg: "\<And>dz dy dx. dz \<in> set [0, 1] \<Longrightarrow> dy \<in> set (dirs y) \<Longrightarrow> dx \<in> set (dirs x) \<Longrightarrow>
      ?f dz dy dx = ?g dz dy dx"
  proof -
    fix dz dy dx :: int
    assume d: "dz \<in> set [0, 1]" "dy \<in> set (dirs y)" "dx \<in> set (dirs x)"
    then have a: "\<bar>dz\<bar> \<le> 1" "\<bar>dy\<bar> \<le> 1" "\<bar>dx\<bar> \<le> 1" using dirs_abs by auto
    have vx: "virtual_index nx x (lookup_for nx x dx) = (x + dx) mod nx - dx"
      by (rule virtual_index_lookup_for[OF b(1,2) assms(4) a(3)])
    have vy: "virtual_index ny y (lookup_for ny y dy) = (y + dy) mod ny - dy"
      by (rule virtual_index_lookup_for[OF b(3,4) assms(5) a(2)])
    have vz: "virtual_index nz z (lookup_for nz z dz) = (z + dz) mod nz - dz"
      by (rule virtual_index_lookup_for[OF b(5,6) assms(6) a(1)])
    have ix: "\<And>n c d. index (lookup_for n c d) = (c + d) mod n" by (simp add: lookup_for_def)
    have p: "0 < make_index (nx, ny, nz) dx dy dz \<longleftrightarrow> forward (dx, dy, dz)"
      unfolding forward_def using make_index_pos_iff[of dx nx dy ny nz dz] a assms(4,5) by simp
    show "?f dz dy dx = ?g dz dy dx"
      unfolding vx vy vz ix make_index_le_iff wrap_length_lookup_for
      by (simp add: p step_cell_def make_index_array_def)
  qed
  have "lookup_shapes g (x, y, z) i (z_lookups nz z) (lookups ny y) (lookups nx x)
        = concat (map (\<lambda>dz. concat (map (\<lambda>dy. concat (map (\<lambda>dx. ?f dz dy dx)
            (dirs x))) (dirs y))) [0, 1])"
    by (simp only: lookup_shapes_def assms(1,2) prod.case
        lookups_lookup_for[OF b(1,2) assms(4)] lookups_lookup_for[OF b(3,4) assms(5)]
        z_lookups_lookup_for[OF b(5,6) assms(6)] map_map comp_def)
  also have "\<dots> = concat (map (\<lambda>dz. concat (map (\<lambda>dy. concat (map (\<lambda>dx. ?g dz dy dx)
            (dirs x))) (dirs y))) [0, 1])"
    by (rule concat_map3_cong) (rule fg)
  also have "\<dots> = concat (map (\<lambda>(dz, dy, dx). ?g dz dy dx)
            (List.product [0, 1] (List.product (dirs y) (dirs x))))"
    by (simp add: product_concat_map concat_map_concat_map comp_def)
  also have "\<dots> = map (\<lambda>(dz, dy, dx). ?h dz dy dx)
             (filter (\<lambda>(dz, dy, dx). forward (dx, dy, dz))
                (List.product [0, 1] (List.product (dirs y) (dirs x))))"
    by (rule concat_map_if_singleton)
  finally show ?thesis .
qed

lemma list_all2_concat_map:
  assumes "\<And>x. x \<in> set xs \<Longrightarrow> list_all2 P (f x) (g x)"
  shows "list_all2 P (concat (map f xs)) (concat (map g xs))"
  using assms by (induction xs) (auto intro: list_all2_appendI)

lemma cell_calls_periodic_shapes:
  assumes "number_of_cells g = (nx, ny, nz)" "in_grid (nx, ny, nz) c"
    "2 \<le> nx" "2 \<le> ny" "2 \<le> nz"
  shows "list_all2 (handed_over g) (cell_shapes g c) (cell_calls_periodic g c)"
proof -
  obtain x y z where c: "c = (x, y, z)" by (cases c) auto
  obtain l0 l1 l2 where len: "grid_length g = (l0, l1, l2)" by (cases "grid_length g") auto
  obtain za zb where z: "z_lookups nz z = [za, zb]" "wrap za = No" "wrap zb \<noteq> PlusLength"
    by (simp add: z_lookups_def)
  obtain ya yb yc where y: "lookups ny y = [ya, yb, yc]" by (simp add: lookups_def)
  obtain xa xb xc where x: "lookups nx x = [xa, xb, xc]" by (simp add: lookups_def)
  note yw = lookups_wrap[OF y]
  note xw = lookups_wrap[OF x]
  let ?i = "make_index_array (nx, ny, nz) (x, y, z)"
  note s = search_calls_shapes[OF assms(1) len z(2,3) conjunct1[OF yw] conjunct2[OF yw]
      conjunct1[OF xw] conjunct2[OF xw], of ?i x y z yc xc, folded x y z(1)]
  note d = lookup_shapes_directions[OF assms(1) len assms(2)[unfolded c] assms(3,4,5), of ?i]
  have "cell_shapes g (x, y, z)
        = Search_Shape ?i # lookup_shapes g (x, y, z) ?i (z_lookups nz z) (lookups ny y) (lookups nx x)"
    unfolding d cell_shapes_def cell_directions_def assms(1) len prod.case
    by (simp add: filter_map comp_def case_prod_beta)
  then show ?thesis using s by (simp add: c cell_calls_periodic_def assms(1))
qed

lemma iterate_cells_periodic_shapes:
  assumes "number_of_cells g = (nx, ny, nz)" "2 \<le> nx" "2 \<le> ny" "2 \<le> nz"
  shows "list_all2 (handed_over g) (periodic_shapes g) (iterate_cells_periodic g)"
proof -
  have r: "iterate_cells_periodic g = concat (map (cell_calls_periodic g) (raster_cells (nx, ny, nz)))"
    by (rule iterate_cells_periodic_raster[OF assms(1)]) (use assms in simp_all)
  show ?thesis
    unfolding r periodic_shapes_def assms(1)
    by (rule list_all2_concat_map)
       (rule cell_calls_periodic_shapes[OF assms(1) _ assms(2,3,4)], simp add: set_raster_cells)
qed

text \<open>
  Claim C3, as amended. Without periodic boundaries \<open>iterate_cells\<close> passes every pair
  of distinct adjacent cells to \<open>neighbor_cell_callback\<close> exactly once and a pair of cells
  that are not adjacent never, and every call hands over the contents of the cells it is
  made for. With periodic boundaries (at least two cells on every axis) the calls are, in
  the order of the cells, for every cell the call of \<open>search_cell_callback\<close> on its contents
  and one call of \<open>neighbor_cell_callback\<close> for every forward direction: it hands over the
  contents of the cell that the direction leads to across the periodic boundaries, as they
  are, and a copy of the contents of the search cell that has been translated up to the
  wrap vector of the direction. So a pair of distinct cells is passed once for every
  direction that leads from the one to the other: at least once if the cells are adjacent,
  never if they are not, and exactly once if every axis has at least three cells.
\<close>
theorem neighbor_calls_both_modes:
  assumes "number_of_cells g = noc" and "in_grid noc c" and "in_grid noc c'" and "c \<noteq> c'"
  shows "cell_pair_calls g (iterate_cells_normal g)
           (make_index_array noc c) (make_index_array noc c')
           = (if adjacent c c' then 1 else 0)
         \<and> map (from_cells g) (iterate_cells_normal g) = iterate_cells_normal g
         \<and> (case noc of
              (nx, ny, nz) \<Rightarrow>
                2 \<le> nx \<and> 2 \<le> ny \<and> 2 \<le> nz \<longrightarrow>
                list_all2 (handed_over g) (periodic_shapes g) (iterate_cells_periodic g) \<and>
                pair_calls (iterate_cells_periodic g) (make_index_array noc c)
                  (make_index_array noc c') = card (directions noc c c') \<and>
                (adjacent_periodic noc c c' \<longrightarrow>
                   1 \<le> pair_calls (iterate_cells_periodic g) (make_index_array noc c)
                         (make_index_array noc c')) \<and>
                (\<not> adjacent_periodic noc c c' \<longrightarrow>
                   pair_calls (iterate_cells_periodic g) (make_index_array noc c)
                     (make_index_array noc c') = 0) \<and>
                (3 \<le> nx \<and> 3 \<le> ny \<and> 3 \<le> nz \<longrightarrow>
                   pair_calls (iterate_cells_periodic g) (make_index_array noc c)
                     (make_index_array noc c') = (if adjacent_periodic noc c c' then 1 else 0)))"
proof (intro conjI)
  note f = from_cells_iterate_cells_normal[OF assms(1,2)]
  note p = pair_calls_both_modes[OF assms]
  from p have "pair_calls (iterate_cells_normal g) (make_index_array noc c)
      (make_index_array noc c') = (if adjacent c c' then 1 else 0)" by (rule conjunct1)
  then show "cell_pair_calls g (iterate_cells_normal g)
           (make_index_array noc c) (make_index_array noc c')
           = (if adjacent c c' then 1 else 0)"
    by (simp only: cell_pair_calls_from_cells[OF f])
  show "map (from_cells g) (iterate_cells_normal g) = iterate_cells_normal g" by (rule f)
  obtain nx ny nz where noc: "noc = (nx, ny, nz)" by (cases noc) auto
  have s: "2 \<le> nx \<and> 2 \<le> ny \<and> 2 \<le> nz \<Longrightarrow>
      list_all2 (handed_over g) (periodic_shapes g) (iterate_cells_periodic g)"
    using iterate_cells_periodic_shapes[OF assms(1)[unfolded noc]] by blast
  from p have "case noc of
              (nx, ny, nz) \<Rightarrow>
                2 \<le> nx \<and> 2 \<le> ny \<and> 2 \<le> nz \<longrightarrow>
                pair_calls (iterate_cells_periodic g) (make_index_array noc c)
                  (make_index_array noc c') = card (directions noc c c') \<and>
                (adjacent_periodic noc c c' \<longrightarrow>
                   1 \<le> pair_calls (iterate_cells_periodic g) (make_index_array noc c)
                         (make_index_array noc c')) \<and>
                (\<not> adjacent_periodic noc c c' \<longrightarrow>
                   pair_calls (iterate_cells_periodic g) (make_index_array noc c)
                     (make_index_array noc c') = 0) \<and>
                (3 \<le> nx \<and> 3 \<le> ny \<and> 3 \<le> nz \<longrightarrow>
                   pair_calls (iterate_cells_periodic g) (make_index_array noc c)
                     (make_index_array noc c') = (if adjacent_periodic noc c c' then 1 else 0))"
    by (rule conjunct2)
  then show "case noc of
              (nx, ny, nz) \<Rightarrow>
                2 \<le> nx \<and> 2 \<le> ny \<and> 2 \<le> nz \<longrightarrow>
                list_all2 (handed_over g) (periodic_shapes g) (iterate_cells_periodic g) \<and>
                pair_calls (iterate_cells_periodic g) (make_index_array noc c)
                  (make_index_array noc c') = card (directions noc c c') \<and>
                (adjacent_periodic noc c c' \<longrightarrow>
                   1 \<le> pair_calls (iterate_cells_periodic g) (make_index_array noc c)
                         (make_index_array noc c')) \<and>
                (\<not> adjacent_periodic noc c c' \<longrightarrow>
                   pair_calls (iterate_cells_periodic g) (make_index_array noc c)
                     (make_index_array noc c') = 0) \<and>
                (3 \<le> nx \<and> 3 \<le> ny \<and> 3 \<le> nz \<longrightarrow>
                   pair_calls (iterate_cells_periodic g) (make_index_array noc c)
                     (make_index_array noc c') = (if adjacent_periodic noc c c' then 1 else 0))"
    using s unfolding noc prod.case by blast
qed

text \<open>The claim as stated, "exactly once" in either mode, fails for a periodic grid with
  two cells on an axis: the cells 0 and 1 are passed twice, once directly and once
  across the boundary.\<close>

lemma abs_le_one_cases: "\<bar>d :: int\<bar> \<le> 1 \<longleftrightarrow> d = - 1 \<or> d = 0 \<or> d = 1"
  by auto

theorem neighbor_calls_both_modes_counterexample:
  "pair_calls (iterate_cells_periodic (wrap_test_grid 10)) 0 1 = 2 \<and>
   make_index_array (2, 2, 2) (0, 0, 0) = 0 \<and> make_index_array (2, 2, 2) (1, 0, 0) = 1 \<and>
   adjacent (0, 0, 0) (1, 0, 0) \<and>
   cells (wrap_test_grid 10) ! 0 \<noteq> [] \<and> cells (wrap_test_grid 10) ! 1 \<noteq> []"
proof -
  have g: "number_of_cells (wrap_test_grid 10) = (2, 2, 2)" by (simp add: wrap_test_grid_def)
  have c: "in_grid (2, 2, 2) (0, 0, 0)" "in_grid (2, 2, 2) (1, 0, 0)"
    by (simp_all add: in_grid_def)
  have n: "(0 :: int, 0 :: int, 0 :: int) \<noteq> (1, 0, 0)" by simp
  have "directions (2, 2, 2) (0, 0, 0) (1, 0, 0) = {(1, 0, 0), (- 1, 0, 0)}"
    unfolding directions_def by (auto simp add: abs_le_one_cases)
  then have "card (directions (2, 2, 2) (0, 0, 0) (1, 0, 0)) = 2" by simp
  with pair_calls_iterate_cells_periodic[OF g refl _ _ _ c n]
  have "pair_calls (iterate_cells_periodic (wrap_test_grid 10)) 0 1 = 2"
    by (simp add: make_index_array_def make_index_def)
  then show ?thesis
    by (simp add: make_index_array_def make_index_def adjacent_def wrap_test_grid_def)
qed

theorem neighbor_calls_both_modes_witness:
  "cell_pair_calls (one_particle_grid (3, 3, 3))
     (iterate_cells_normal (one_particle_grid (3, 3, 3))) 0 2 = 0 \<and>
   pair_calls (iterate_cells_periodic (one_particle_grid (3, 3, 3))) 0 2 = 1 \<and>
   list_all2 (handed_over (one_particle_grid (3, 3, 3)))
     (periodic_shapes (one_particle_grid (3, 3, 3)))
     (iterate_cells_periodic (one_particle_grid (3, 3, 3))) \<and>
   cells (one_particle_grid (3, 3, 3)) ! 0 = [formed_particle 0 (1 / 2) (1 / 2) (1 / 2)] \<and>
   cells (one_particle_grid (3, 3, 3)) ! 2 = [formed_particle 2 (5 / 2) (1 / 2) (1 / 2)]"
proof -
  have c: "in_grid (3, 3, 3) (0, 0, 0)" "in_grid (3, 3, 3) (2, 0, 0)"
    by (simp_all add: in_grid_def)
  have n: "(0 :: int, 0 :: int, 0 :: int) \<noteq> (2, 0, 0)" by simp
  have "(- 1, 0, 0) \<in> directions (3, 3, 3) (0, 0, 0) (2, 0, 0)" by (simp add: directions_def)
  then have a: "adjacent_periodic (3, 3, 3) (0, 0, 0) (2, 0, 0)"
    unfolding adjacent_periodic_def by blast
  from neighbor_calls_both_modes[OF one_particle_grid_333(1) c n] a show ?thesis
    by (simp add: make_index_array_def make_index_def adjacent_def one_particle_grid_333)
qed

subsection \<open>The translated copy of the search cell\<close>

lemma list_all2_member:
  "list_all2 P xs ys \<Longrightarrow> x \<in> set xs \<Longrightarrow> \<exists>y\<in>set ys. P x y"
  by (induction rule: list_all2_induct) auto

lemma translated_zero: "translated (0, 0, 0) p = p"
  by (cases "position p") (simp add: translated_def)

lemma translated_translated:
  "translated (vec_minus w c) (translated c p) = translated w p"
  by (cases "position p"; cases w; cases c) (simp add: translated_def vec_minus_def)

lemma translated_by_exact: "translated_by s0 w s \<Longrightarrow> s = map (translated w) s0"
proof (induction rule: translated_by.induct)
  case translated_by_start
  show ?case by (simp add: translated_zero map_idI)
next
  case (translated_by_shift c s w)
  then show ?case by (simp add: translated_translated)
qed

lemma wrap_test_grid_shape:
  "Neighbor_Shape 1 (- L, 0, 0) 0 \<in> set (periodic_shapes (wrap_test_grid L))"
proof -
  have g: "number_of_cells (wrap_test_grid L) = (2, 2, 2)" "grid_length (wrap_test_grid L) = (L, L, L)"
    by (simp_all add: wrap_test_grid_def)
  have "(1, 0, 0) \<in> set (raster_cells (2, 2, 2))" by (simp add: set_raster_cells in_grid_def)
  moreover have "Neighbor_Shape 1 (- L, 0, 0) 0 \<in> set (cell_shapes (wrap_test_grid L) (1, 0, 0))"
    by (simp add: cell_shapes_def g cell_directions_def dirs_def forward_def wrap_shift_def
        step_cell_def make_index_array_def make_index_def)
  ultimately show ?thesis unfolding periodic_shapes_def g by auto
qed

text \<open>
  Claim C5. In the grid with periodic boundaries, the length \<open>L\<close> and two cells on every
  axis, the particle at \<open>(L - 0.01, 0, 0)\<close> and the particle at \<open>(0.01, 0, 0)\<close> are handed
  to \<open>neighbor_cell_callback\<close> in one call, for the search cell 1 and the neighbor cell 0:
  the neighbor particle as it is, and the copy of the search particle that the
  translation by the wrap vector \<open>(-L, 0, 0)\<close> gives, which lies at \<open>(-0.01, 0, 0)\<close>, at the
  distance 0.02 from its neighbor in the arithmetic of the model. The cells of the grid
  still hold the particles at their own positions.
\<close>
theorem periodic_wrap_translated_copy:
  assumes "0 < L"
  shows "Neighbor_Cell 1 [formed_particle 1 (- (1 / 100)) 0 0] 0 [formed_particle 2 (1 / 100) 0 0]
           \<in> set (iterate_cells_periodic (wrap_test_grid L))
         \<and> translated_by (cells (wrap_test_grid L) ! 1) (- L, 0, 0)
             [formed_particle 1 (- (1 / 100)) 0 0]
         \<and> cells (wrap_test_grid L) ! 1 = [formed_particle 1 (L - 1 / 100) 0 0]
         \<and> cells (wrap_test_grid L) ! 0 = [formed_particle 2 (1 / 100) 0 0]
         \<and> separation (formed_particle 1 (- (1 / 100)) 0 0) (formed_particle 2 (1 / 100) 0 0)
           = 2 / 100"
proof -
  have g: "number_of_cells (wrap_test_grid L) = (2, 2, 2)" by (simp add: wrap_test_grid_def)
  have c: "cells (wrap_test_grid L) ! 1 = [formed_particle 1 (L - 1 / 100) 0 0]"
    "cells (wrap_test_grid L) ! 0 = [formed_particle 2 (1 / 100) 0 0]"
    by (simp_all add: wrap_test_grid_def)
  have "list_all2 (handed_over (wrap_test_grid L)) (periodic_shapes (wrap_test_grid L))
          (iterate_cells_periodic (wrap_test_grid L))"
    by (rule iterate_cells_periodic_shapes[OF g]) simp_all
  from list_all2_member[OF this wrap_test_grid_shape] obtain call where
    call: "call \<in> set (iterate_cells_periodic (wrap_test_grid L))"
      "handed_over (wrap_test_grid L) (Neighbor_Shape 1 (- L, 0, 0) 0) call" by blast
  from call(2) obtain s where s: "call = Neighbor_Cell 1 s 0 (cells (wrap_test_grid L) ! 0)"
    "translated_by (cells (wrap_test_grid L) ! 1) (- L, 0, 0) s"
    by (cases call) (simp_all add: handed_over_def)
  from translated_by_exact[OF s(2)] have e: "s = [formed_particle 1 (- (1 / 100)) 0 0]"
    by (simp add: wrap_test_grid_def translated_def formed_particle_def)
  have d: "separation (formed_particle 1 (- (1 / 100)) 0 0) (formed_particle 2 (1 / 100) 0 0)
           = 2 / 100"
    by (simp add: separation_def formed_particle_def x1_def x2_def x3_def)
  have m: "Neighbor_Cell 1 [formed_particle 1 (- (1 / 100)) 0 0] 0 [formed_particle 2 (1 / 100) 0 0]
           \<in> set (iterate_cells_periodic (wrap_test_grid L))"
    using call(1) s(1) e by (simp add: wrap_test_grid_def)
  have t: "translated_by (cells (wrap_test_grid L) ! 1) (- L, 0, 0)
             [formed_particle 1 (- (1 / 100)) 0 0]"
    using s(2) unfolding e by simp
  show ?thesis using m t c d by (intro conjI)
qed

theorem periodic_wrap_translated_copy_witness:
  "Neighbor_Cell 1 [formed_particle 1 (- (1 / 100)) 0 0] 0 [formed_particle 2 (1 / 100) 0 0]
     \<in> set (iterate_cells_periodic (wrap_test_grid 10)) \<and>
   cells (wrap_test_grid 10) ! 1 = [formed_particle 1 (10 - 1 / 100) 0 0]"
proof -
  have "(0::real) < 10" by simp
  from periodic_wrap_translated_copy[OF this] show ?thesis by simp
qed

text \<open>With two cells on an axis the same two particles are also handed over once for the
  search cell 0, without translation: this is the second call on the cells 0 and 1 of the
  counterexample to claim C3.\<close>

lemma wrap_test_grid_direct_call:
  "Neighbor_Cell 0 [formed_particle 2 (1 / 100) 0 0] 1 [formed_particle 1 (L - 1 / 100) 0 0]
     \<in> set (iterate_cells_periodic (wrap_test_grid L))"
proof -
  have g: "number_of_cells (wrap_test_grid L) = (2, 2, 2)" "grid_length (wrap_test_grid L) = (L, L, L)"
    by (simp_all add: wrap_test_grid_def)
  have c: "cells (wrap_test_grid L) ! 1 = [formed_particle 1 (L - 1 / 100) 0 0]"
    "cells (wrap_test_grid L) ! 0 = [formed_particle 2 (1 / 100) 0 0]"
    by (simp_all add: wrap_test_grid_def)
  have "(0, 0, 0) \<in> set (raster_cells (2, 2, 2))" by (simp add: set_raster_cells in_grid_def)
  moreover have "Neighbor_Shape 0 (0, 0, 0) 1 \<in> set (cell_shapes (wrap_test_grid L) (0, 0, 0))"
    by (simp add: cell_shapes_def g cell_directions_def dirs_def forward_def wrap_shift_def
        step_cell_def make_index_array_def make_index_def)
  ultimately have sh: "Neighbor_Shape 0 (0, 0, 0) 1 \<in> set (periodic_shapes (wrap_test_grid L))"
    unfolding periodic_shapes_def g by auto
  have "list_all2 (handed_over (wrap_test_grid L)) (periodic_shapes (wrap_test_grid L))
          (iterate_cells_periodic (wrap_test_grid L))"
    by (rule iterate_cells_periodic_shapes[OF g(1)]) simp_all
  from list_all2_member[OF this sh] obtain call where
    call: "call \<in> set (iterate_cells_periodic (wrap_test_grid L))"
      "handed_over (wrap_test_grid L) (Neighbor_Shape 0 (0, 0, 0) 1) call" by blast
  from call(2) obtain s where s: "call = Neighbor_Cell 0 s 1 (cells (wrap_test_grid L) ! 1)"
    "translated_by (cells (wrap_test_grid L) ! 0) (0, 0, 0) s"
    by (cases call) (simp_all add: handed_over_def)
  from translated_by_exact[OF s(2)] have "s = [formed_particle 2 (1 / 100) 0 0]"
    by (simp add: wrap_test_grid_def translated_zero)
  then show ?thesis using call(1) s(1) by (simp add: wrap_test_grid_def)
qed

end
